theory Spec2Isabelle
  imports Main "HOL-Library.Multiset"
begin

section \<open>Common data\<close>

text \<open>
  Objects that the program compares by identity (contracts, source units, AST nodes) are
  represented by records or numbers that carry an identifier; a JavaScript \<open>Map\<close> whose
  iteration order is observable is an association list in insertion order, read with
  \<open>map_of\<close>.

  A failed \<open>assert\<close>, a thrown \<open>TypeError\<close> and \<open>error(msg)\<close> (print the message,
  \<open>process.exit(1)\<close>) are the left summand of the result.
\<close>

datatype error =
    AssertionFailed string
  | TypeError
  | ProcessExit nat string

section \<open>Source ranges (util: \<open>contains\<close>)\<close>

text \<open>
  \<open>SrcTriple = [number, number, number]\<close>: starting offset, length, file index. The
  components of a source triple are integers, far below \<open>2^53\<close>, where JavaScript numbers
  add and compare exactly; they are modelled by \<open>int\<close>.
\<close>

type_synonym SrcTriple = "int \<times> int \<times> int"

text \<open>
  \<open>contains(a, b)\<close> accepts a triple or its string form; a string is first turned into a
  triple by \<open>parseSrcTriple\<close> (\<open>Number.parseInt\<close> on the three fields, a function of the
  JavaScript runtime), which is a parameter here.
\<close>

datatype SrcArg = SrcString string | SrcTripleArg SrcTriple

fun toTriple :: "(string \<Rightarrow> SrcTriple) \<Rightarrow> SrcArg \<Rightarrow> SrcTriple" where
  "toTriple parseSrcTriple (SrcString s) = parseSrcTriple s"
| "toTriple parseSrcTriple (SrcTripleArg t) = t"

definition containsArg :: "(string \<Rightarrow> SrcTriple) \<Rightarrow> SrcArg \<Rightarrow> SrcArg \<Rightarrow> bool" where
  "containsArg parseSrcTriple a0 b0 =
     (let a = toTriple parseSrcTriple a0;
          b = toTriple parseSrcTriple b0
      in (case a of (a0, a1, a2) \<Rightarrow> (case b of (b0, b1, b2) \<Rightarrow>
            a2 = b2 \<and> a0 \<le> b0 \<and> a0 + a1 \<ge> b0 + b1)))"

text \<open>The predicate on two triples, the case the rest of the program uses.\<close>

definition contains :: "SrcTriple \<Rightarrow> SrcTriple \<Rightarrow> bool" where
  "contains a b = containsArg (\<lambda>s. (0, 0, 0)) (SrcTripleArg a) (SrcTripleArg b)"

lemma contains_iff:
  "contains (a0, a1, a2) (b0, b1, b2) \<longleftrightarrow> a2 = b2 \<and> a0 \<le> b0 \<and> b0 + b1 \<le> a0 + a1"
  by (simp add: contains_def containsArg_def)

lemma containsArg_triples:
  "containsArg p (SrcTripleArg a) (SrcTripleArg b) = contains a b"
  by (simp add: contains_def containsArg_def)

lemma contains_refl: "contains a a"
  by (cases a) (simp add: contains_iff)

lemma contains_trans: "contains a b \<Longrightarrow> contains b c \<Longrightarrow> contains a c"
  by (cases a; cases b; cases c) (simp add: contains_iff)

lemma contains_antisym: "contains a b \<Longrightarrow> contains b a \<Longrightarrow> a = b"
  by (cases a; cases b) (simp add: contains_iff)

lemma contains_same_file: "contains a b \<Longrightarrow> snd (snd a) = snd (snd b)"
  by (cases a; cases b) (simp add: contains_iff)

text \<open>
  C10. \<open>contains\<close> is a partial order on source triples: it is reflexive, transitive and
  antisymmetric, and it relates only triples of the same file index.
\<close>

theorem contains_partial_order:
  "contains a a
   \<and> (contains a b \<and> contains b c \<longrightarrow> contains a c)
   \<and> (contains a b \<and> contains b a \<longrightarrow> a = b)
   \<and> (contains a b \<longrightarrow> snd (snd a) = snd (snd b))"
  using contains_refl [of a] contains_trans [of a b c] contains_antisym [of a b]
    contains_same_file [of a b]
  by blast

theorem contains_partial_order_witness:
  "contains (0, 10, 1) (0, 10, 1)
   \<and> contains (0, 10, 1) (2, 6, 1) \<and> contains (2, 6, 1) (3, 4, 1) \<and> contains (0, 10, 1) (3, 4, 1)
   \<and> \<not> contains (2, 6, 1) (0, 10, 1)
   \<and> \<not> contains (0, 10, 1) (2, 6, 0)"
  using contains_partial_order [of "(0, 10, 1)" "(2, 6, 1)" "(3, 4, 1)"]
  by (simp add: contains_iff)

section \<open>Type environment (\<open>TypeEnv\<close>)\<close>

text \<open>
  A \<open>ContractDefinition\<close> is referred to by its node identifier wherever the program keys a
  \<open>Map\<close> or a \<open>Set\<close> by the object. \<open>vLinearizedBaseContracts\<close> is the linearized list of
  base contracts as the compiler gives it (the contract itself first). The last two fields
  are \<open>contract.vScope.sourceEntryKey\<close> and \<open>contract.vScope.sourceListIndex\<close>, read
  through the contract's source unit.
\<close>

datatype ContractKind = Contract | Interface | Library

datatype FunctionKind = Constructor | Function | Receive | Fallback | Free

datatype FunctionVisibility = External | Public | Internal | Private | Default

datatype FunctionStateMutability = Pure | View | Constant | Payable | NonPayable

record FunctionDefinition =
  fun_id :: nat
  fun_name :: string
  fun_kind :: FunctionKind
  visibility :: FunctionVisibility
  stateMutability :: FunctionStateMutability
  vBody :: "nat option"

record ContractDefinition =
  contract_id :: nat
  contract_name :: string
  contract_kind :: ContractKind
  vLinearizedBaseContracts :: "nat list"
  vFunctions :: "FunctionDefinition list"
  vScope_sourceEntryKey :: string
  vScope_sourceListIndex :: int

text \<open>
  \<open>SUserFunctionDefinition\<close>: of a user function the environment reads the name only
  (\<open>fun.name.name\<close>); \<open>uf_node\<close> stands for the rest of the object.
\<close>

record SUserFunctionDefinition =
  uf_name :: string
  uf_node :: nat

text \<open>
  The field \<open>userFunctions\<close> of \<open>TypeEnv\<close>, a map from contracts to maps from names to
  definitions. The other field, \<open>typeMap\<close>, is read and written by neither function below.
\<close>

record TypeEnv =
  userFunctions :: "nat \<rightharpoonup> (string \<rightharpoonup> SUserFunctionDefinition)"

definition newTypeEnv :: TypeEnv where
  "newTypeEnv = \<lparr>userFunctions = Map.empty\<rparr>"

text \<open>The loop of \<open>getUserFunction\<close> over \<open>scope.vLinearizedBaseContracts\<close>.\<close>

fun getUserFunctionFrom ::
  "TypeEnv \<Rightarrow> nat list \<Rightarrow> string \<Rightarrow> SUserFunctionDefinition option" where
  "getUserFunctionFrom env [] name = None"
| "getUserFunctionFrom env (base # bases) name =
     (case userFunctions env base of
        None \<Rightarrow> getUserFunctionFrom env bases name
      | Some funM \<Rightarrow>
          (case funM name of
             Some res \<Rightarrow> Some res
           | None \<Rightarrow> getUserFunctionFrom env bases name))"

definition getUserFunction ::
  "TypeEnv \<Rightarrow> ContractDefinition \<Rightarrow> string \<Rightarrow> SUserFunctionDefinition option" where
  "getUserFunction env scope name = getUserFunctionFrom env (vLinearizedBaseContracts scope) name"

definition defineUserFunction ::
  "TypeEnv \<Rightarrow> ContractDefinition \<Rightarrow> SUserFunctionDefinition \<Rightarrow> TypeEnv" where
  "defineUserFunction env scope fn =
     (let funM = (case userFunctions env (contract_id scope) of
                    None \<Rightarrow> Map.empty
                  | Some m \<Rightarrow> m)
      in env\<lparr>userFunctions := (userFunctions env)(contract_id scope \<mapsto> funM(uf_name fn \<mapsto> fn))\<rparr>)"

text \<open>
  The environment after a sequence of registrations, and what that sequence registers for
  a contract and a name: the definition of the latest registration for that pair.
\<close>

definition envAfter :: "(ContractDefinition \<times> SUserFunctionDefinition) list \<Rightarrow> TypeEnv" where
  "envAfter regs = foldl (\<lambda>env (scope, fn). defineUserFunction env scope fn) newTypeEnv regs"

fun registered ::
  "(ContractDefinition \<times> SUserFunctionDefinition) list \<Rightarrow> nat \<Rightarrow> string
     \<Rightarrow> SUserFunctionDefinition option" where
  "registered [] c name = None"
| "registered ((scope, fn) # regs) c name =
     (case registered regs c name of
        Some later \<Rightarrow> Some later
      | None \<Rightarrow> if contract_id scope = c \<and> uf_name fn = name then Some fn else None)"

definition lookupUserFunction :: "TypeEnv \<Rightarrow> nat \<Rightarrow> string \<Rightarrow> SUserFunctionDefinition option" where
  "lookupUserFunction env c name =
     (case userFunctions env c of None \<Rightarrow> None | Some funM \<Rightarrow> funM name)"

lemma lookupUserFunction_define:
  "lookupUserFunction (defineUserFunction env scope fn) c name =
     (if contract_id scope = c \<and> uf_name fn = name then Some fn
      else lookupUserFunction env c name)"
  by (simp add: lookupUserFunction_def defineUserFunction_def Let_def split: option.splits)

lemma registered_snoc:
  "registered (regs @ [(scope, fn)]) c name =
     (if contract_id scope = c \<and> uf_name fn = name then Some fn else registered regs c name)"
  by (induction regs) (auto split: option.splits)

lemma lookupUserFunction_envAfter:
  "lookupUserFunction (envAfter regs) c name = registered regs c name"
proof (induction regs rule: rev_induct)
  case Nil
  show ?case by (simp add: envAfter_def newTypeEnv_def lookupUserFunction_def)
next
  case (snoc r regs)
  obtain scope fn where r: "r = (scope, fn)" by (cases r)
  have "envAfter (regs @ [r]) = defineUserFunction (envAfter regs) scope fn"
    by (simp add: envAfter_def r)
  then show ?case
    using snoc by (simp add: r lookupUserFunction_define registered_snoc)
qed

lemma getUserFunctionFrom_find:
  "getUserFunctionFrom env bases name =
     (case find (\<lambda>b. lookupUserFunction env b name \<noteq> None) bases of
        None \<Rightarrow> None
      | Some b \<Rightarrow> lookupUserFunction env b name)"
  by (induction bases) (auto simp: lookupUserFunction_def split: option.splits)

text \<open>
  C8. After any sequence of \<open>defineUserFunction\<close> calls, \<open>getUserFunction\<close> returns what is
  registered for the first contract of the scope's linearized base-contract list for which
  the name is registered, and \<open>undefined\<close> (\<open>None\<close>) when the name is registered for no
  contract of that list. So a definition in a contract earlier in the list (more derived)
  shadows one of the same name in a base contract later in the list.
\<close>

theorem getUserFunction_first_base:
  "getUserFunction (envAfter regs) scope name =
     (case find (\<lambda>b. registered regs b name \<noteq> None) (vLinearizedBaseContracts scope) of
        None \<Rightarrow> None
      | Some b \<Rightarrow> registered regs b name)"
  by (simp add: getUserFunction_def getUserFunctionFrom_find lookupUserFunction_envAfter
        cong: option.case_cong)

theorem getUserFunction_first_base_witness:
  "(let base = \<lparr>contract_id = 1, contract_name = ''Base'', contract_kind = Contract,
                  vLinearizedBaseContracts = [1], vFunctions = [],
                  vScope_sourceEntryKey = ''a.sol'', vScope_sourceListIndex = 0\<rparr>;
        derived = \<lparr>contract_id = 2, contract_name = ''Derived'', contract_kind = Contract,
                  vLinearizedBaseContracts = [2, 1], vFunctions = [],
                  vScope_sourceEntryKey = ''a.sol'', vScope_sourceListIndex = 0\<rparr>;
        f_base = \<lparr>uf_name = ''f'', uf_node = 10\<rparr>;
        g_base = \<lparr>uf_name = ''g'', uf_node = 11\<rparr>;
        f_derived = \<lparr>uf_name = ''f'', uf_node = 12\<rparr>;
        env = envAfter [(base, f_base), (base, g_base), (derived, f_derived)]
    in getUserFunction env derived ''f'' = Some f_derived
       \<and> getUserFunction env derived ''g'' = Some g_base
       \<and> getUserFunction env base ''f'' = Some f_base
       \<and> getUserFunction env derived ''h'' = None)"
  by (simp add: getUserFunction_first_base Let_def)

section \<open>Selecting the compiler version (\<open>pickVersion\<close>)\<close>

text \<open>
  \<open>[...new Set(xs)]\<close>: the elements of \<open>xs\<close> in the order of their first occurrence, each
  once. \<open>Set.add\<close> leaves the set as it is when the element is already in it.
\<close>

definition setAdd :: "'a list \<Rightarrow> 'a \<Rightarrow> 'a list" where
  "setAdd s x = (if x \<in> set s then s else s @ [x])"

definition newSet :: "'a list \<Rightarrow> 'a list" where
  "newSet xs = foldl setAdd [] xs"

text \<open>\<open>Array.prototype.join\<close>; the template literal \<open>${versions}\<close> joins with a comma.\<close>

fun join :: "string \<Rightarrow> string list \<Rightarrow> string" where
  "join sep [] = []"
| "join sep [x] = x"
| "join sep (x # y # ys) = x @ sep @ join sep (y # ys)"

definition multipleVersionsMessage :: "string list \<Rightarrow> string" where
  "multipleVersionsMessage versions =
     ''Multiple compiler versions detected: '' @ join '','' versions
       @ ''. Please specify an exact version to use with '' @ [CHR 0x27]
       @ ''--compiler-version'' @ [CHR 0x27] @ ''.''"

text \<open>
  \<open>versionUsedMap\<close> maps each target to the compiler version used for it; its entries are
  listed in insertion order.
\<close>

definition pickVersion :: "(string \<times> string) list \<Rightarrow> error + string" where
  "pickVersion versionUsedMap =
     (let versions = newSet (map snd versionUsedMap)
      in if length versions \<noteq> 1
         then Inl (ProcessExit 1 (multipleVersionsMessage versions))
         else Inr (versions ! 0))"

lemma foldl_setAdd:
  "distinct acc \<Longrightarrow>
     distinct (foldl setAdd acc xs) \<and> set (foldl setAdd acc xs) = set acc \<union> set xs"
  by (induction xs arbitrary: acc) (auto simp: setAdd_def)

lemma distinct_newSet: "distinct (newSet xs)"
  by (simp add: newSet_def foldl_setAdd)

lemma set_newSet: "set (newSet xs) = set xs"
  by (simp add: newSet_def foldl_setAdd)

lemma length_newSet: "length (newSet xs) = card (set xs)"
  using distinct_card [OF distinct_newSet, of xs] by (simp add: set_newSet)

lemma newSet_single: "set xs = {v} \<Longrightarrow> newSet xs = [v]"
proof -
  assume v: "set xs = {v}"
  then have "length (newSet xs) = 1" by (simp add: length_newSet)
  then obtain w where w: "newSet xs = [w]"
    by (cases "newSet xs") auto
  then have "set xs = {w}" using set_newSet [of xs] by simp
  with v w show ?thesis by simp
qed

lemma newSet_two:
  assumes "v1 \<in> set xs" "v2 \<in> set xs" "v1 \<noteq> v2"
  shows "length (newSet xs) \<noteq> 1"
proof
  assume "length (newSet xs) = 1"
  then have "card (set xs) = 1" by (simp add: length_newSet)
  then obtain w where "set xs = {w}" by (auto simp: card_1_singleton_iff)
  with assms show False by auto
qed

lemma newSet_first_occurrences: "newSet xs = rev (remdups (rev xs))"
proof (induction xs rule: rev_induct)
  case Nil
  show ?case by (simp add: newSet_def)
next
  case (snoc x xs)
  have "newSet (xs @ [x]) = setAdd (newSet xs) x" by (simp add: newSet_def)
  also have "\<dots> = (if x \<in> set xs then newSet xs else newSet xs @ [x])"
    by (simp add: setAdd_def set_newSet)
  finally show ?case using snoc.IH by simp
qed

lemma join_comma:
  "join sep (x # xs) = x @ concat (map (\<lambda>y. sep @ y) xs)"
  by (induction xs arbitrary: x) simp_all

text \<open>
  C4. When all targets resolved to one compiler version, \<open>pickVersion\<close> returns it. When
  two distinct versions are present it returns no value: it exits with code 1, and the
  message it reports lists the detected versions between the two fixed parts of its text:
  each version once, in the order of first detection, the first as it is and every further
  one after a comma.
\<close>

theorem pickVersion_single_or_exit:
  "(set (map snd versionUsedMap) = {v} \<longrightarrow> pickVersion versionUsedMap = Inr v)
   \<and> (v1 \<in> set (map snd versionUsedMap) \<and> v2 \<in> set (map snd versionUsedMap) \<and> v1 \<noteq> v2 \<longrightarrow>
        (\<exists>first others.
           first # others = rev (remdups (rev (map snd versionUsedMap)))
           \<and> pickVersion versionUsedMap =
               Inl (ProcessExit 1
                 (''Multiple compiler versions detected: ''
                   @ first @ concat (map (\<lambda>version. '','' @ version) others)
                   @ ''. Please specify an exact version to use with '' @ [CHR 0x27]
                   @ ''--compiler-version'' @ [CHR 0x27] @ ''.''))))"
proof (intro conjI impI)
  assume "set (map snd versionUsedMap) = {v}"
  then have "newSet (map snd versionUsedMap) = [v]" by (rule newSet_single)
  then show "pickVersion versionUsedMap = Inr v" by (simp add: pickVersion_def)
next
  let ?versions = "newSet (map snd versionUsedMap)"
  assume two: "v1 \<in> set (map snd versionUsedMap) \<and> v2 \<in> set (map snd versionUsedMap) \<and> v1 \<noteq> v2"
  then have len: "length ?versions \<noteq> 1"
    using newSet_two [of v1 "map snd versionUsedMap" v2] by blast
  from two have "set ?versions \<noteq> {}" by (auto simp: set_newSet)
  then obtain first others where vs: "?versions = first # others"
    by (cases ?versions) auto
  from len have "pickVersion versionUsedMap =
      Inl (ProcessExit 1 (multipleVersionsMessage ?versions))"
    by (simp add: pickVersion_def)
  then have "pickVersion versionUsedMap =
      Inl (ProcessExit 1
        (''Multiple compiler versions detected: ''
          @ first @ concat (map (\<lambda>version. '','' @ version) others)
          @ ''. Please specify an exact version to use with '' @ [CHR 0x27]
          @ ''--compiler-version'' @ [CHR 0x27] @ ''.''))"
    by (simp add: multipleVersionsMessage_def vs join_comma)
  moreover from vs have "first # others = rev (remdups (rev (map snd versionUsedMap)))"
    by (simp add: newSet_first_occurrences)
  ultimately show "\<exists>first others.
           first # others = rev (remdups (rev (map snd versionUsedMap)))
           \<and> pickVersion versionUsedMap =
               Inl (ProcessExit 1
                 (''Multiple compiler versions detected: ''
                   @ first @ concat (map (\<lambda>version. '','' @ version) others)
                   @ ''. Please specify an exact version to use with '' @ [CHR 0x27]
                   @ ''--compiler-version'' @ [CHR 0x27] @ ''.''))"
    by blast
qed

theorem pickVersion_single_or_exit_witness:
  "pickVersion [(''a.sol'', ''0.6.12''), (''b.sol'', ''0.6.12'')] = Inr ''0.6.12''
   \<and> pickVersion [(''a.sol'', ''0.6.12''), (''b.sol'', ''0.7.5''), (''c.sol'', ''0.6.12'')] =
       Inl (ProcessExit 1 (''Multiple compiler versions detected: 0.6.12,0.7.5. ''
          @ ''Please specify an exact version to use with '' @ [CHR 0x27]
          @ ''--compiler-version'' @ [CHR 0x27] @ ''.''))"
proof -
  let ?one = "[(''a.sol'', ''0.6.12''), (''b.sol'', ''0.6.12'')]"
  let ?two = "[(''a.sol'', ''0.6.12''), (''b.sol'', ''0.7.5''), (''c.sol'', ''0.6.12'')]"
  have one: "set (map snd ?one) = {''0.6.12''}"
    by simp
  have two: "''0.6.12'' \<in> set (map snd ?two) \<and> ''0.7.5'' \<in> set (map snd ?two)
      \<and> ''0.6.12'' \<noteq> ''0.7.5''"
    by simp
  have order: "rev (remdups (rev (map snd ?two))) = [''0.6.12'', ''0.7.5'']"
    by simp
  from pickVersion_single_or_exit [of ?one "''0.6.12''"] one
  have first: "pickVersion ?one = Inr ''0.6.12''" by blast
  from pickVersion_single_or_exit [of ?two _ "''0.6.12''" "''0.7.5''"] two
  obtain first others where "first # others = rev (remdups (rev (map snd ?two)))"
    and run: "pickVersion ?two =
               Inl (ProcessExit 1
                 (''Multiple compiler versions detected: ''
                   @ first @ concat (map (\<lambda>version. '','' @ version) others)
                   @ ''. Please specify an exact version to use with '' @ [CHR 0x27]
                   @ ''--compiler-version'' @ [CHR 0x27] @ ''.''))"
    by blast
  with order have "first = ''0.6.12''" and "others = [''0.7.5'']" by simp_all
  with run first show ?thesis by simp
qed

lemma pickVersion_empty:
  "pickVersion [] = Inl (ProcessExit 1 (multipleVersionsMessage []))"
  by (simp add: pickVersion_def newSet_def)

section \<open>Instrumentation metadata\<close>

subsection \<open>Printing numbers\<close>

text \<open>Template literals print a number in decimal, with a minus sign when negative.\<close>

definition digit :: "nat \<Rightarrow> char" where
  "digit n = ''0123456789'' ! n"

fun showNat :: "nat \<Rightarrow> string" where
  "showNat n = (if n < 10 then [digit n] else showNat (n div 10) @ [digit (n mod 10)])"

declare showNat.simps [simp del]

definition showInt :: "int \<Rightarrow> string" where
  "showInt i = (if i < 0 then ''-'' @ showNat (nat (- i)) else showNat (nat i))"

definition ppSrcTripple :: "SrcTriple \<Rightarrow> string" where
  "ppSrcTripple src = (case src of (a, b, c) \<Rightarrow> showInt a @ '':'' @ showInt b @ '':'' @ showInt c)"

subsection \<open>Errors in sequence\<close>

definition bindE :: "error + 'a \<Rightarrow> ('a \<Rightarrow> error + 'b) \<Rightarrow> error + 'b" where
  "bindE r f = (case r of Inl e \<Rightarrow> Inl e | Inr x \<Rightarrow> f x)"

fun mapE :: "('a \<Rightarrow> error + 'b) \<Rightarrow> 'a list \<Rightarrow> error + 'b list" where
  "mapE f [] = Inr []"
| "mapE f (x # xs) =
     (case f x of
        Inl e \<Rightarrow> Inl e
      | Inr y \<Rightarrow> (case mapE f xs of Inl e \<Rightarrow> Inl e | Inr ys \<Rightarrow> Inr (y # ys)))"

subsection \<open>Data\<close>

text \<open>
  An AST node as the emitter reads it. \<open>node_src\<close> is the triple that the node's \<open>src\<close>
  string \<open>offset:length:file\<close> denotes; \<open>node_unit\<close> is the absolute path of the node itself
  when it is a \<open>SourceUnit\<close> and otherwise of its closest enclosing \<open>SourceUnit\<close>, if any.
\<close>

datatype NodeKind =
    SourceUnitNode
  | StructuredDocumentationNode
  | ParameterListNode nat
  | OtherNode

record ASTNode =
  node_id :: nat
  node_src :: SrcTriple
  node_kind :: NodeKind
  node_unit :: "string option"

text \<open>
  An import directive refers to the imported source unit (\<open>imp.vSourceUnit\<close>): the object,
  by its identifier, and its \<open>absolutePath\<close>.
\<close>

record ImportDirective =
  vSourceUnit_id :: nat
  vSourceUnit_absolutePath :: string

text \<open>\<open>unit_nodes\<close> lists the nodes that \<open>unit.walkChildren\<close> visits, in its order.\<close>

record SourceUnit =
  unit_id :: nat
  absolutePath :: string
  sourceEntryKey :: string
  vImportDirectives :: "ImportDirective list"
  vFreeFunctions :: "FunctionDefinition list"
  vContracts :: "ContractDefinition list"
  unit_nodes :: "ASTNode list"

record Location =
  offset :: int
  line :: int
  column :: int

record Range =
  range_start :: Location
  range_end :: Location

text \<open>
  The target of an annotation is a function, a state variable or a contract; of a function
  or variable the emitter reads \<open>vScope\<close>, a contract or a source unit.
\<close>

datatype DefinitionScope = ScopeContract ContractDefinition | ScopeSourceUnit

datatype AnnotationTarget =
    FunctionTarget DefinitionScope
  | VariableTarget DefinitionScope
  | ContractTarget ContractDefinition

text \<open>
  \<open>PropertyMetaData\<close> (an \<open>if_succeeds\<close> or \<open>invariant\<close> annotation) and
  \<open>UserFunctionDefinitionMetaData\<close> (a \<open>define\<close> annotation), the two classes of
  \<open>AnnotationMetaData\<close>. \<open>raw_src\<close> is the triple of \<open>raw.src\<close>.
\<close>

record PropertyMetaData =
  prop_id :: nat
  prop_target :: AnnotationTarget
  targetName :: string
  predicateFileLoc :: Range
  annotationFileRange :: Range
  message :: string
  original :: string
  raw_src :: SrcTriple
  annotationLoc :: "int \<times> int"

record UserFunctionDefinitionMetaData =
  ufd_id :: nat
  ufd_original :: string

datatype AnnotationMetaData =
    Property PropertyMetaData
  | UserFunctionDefinition UserFunctionDefinitionMetaData

datatype OutputMode = Flat | Files | Json

text \<open>
  The fields of the instrumentation context that are read here: the merged units, the
  contents of the source files by \<open>sourceEntryKey\<close>, and what the emitter reads. Maps keyed by an
  annotation are keyed by its identifier; \<open>instrumetnedCheck\<close> is iterated, so it is a list
  of entries in insertion order. \<open>debugEventDefs\<close> gives the canonical signature of the
  event. A \<open>SrcRangeMap\<close> maps a node to offset and length in the printed text.
\<close>

record InstrumentationContext =
  ctx_units :: "SourceUnit list"
  ctx_files :: "string \<rightharpoonup> string"
  ctx_outputMode :: OutputMode
  ctx_utilsUnit :: SourceUnit
  ctx_annotations :: "AnnotationMetaData list"
  ctx_debugEventDefs :: "nat \<rightharpoonup> string"
  ctx_evaluationStatements :: "nat \<rightharpoonup> ASTNode list"
  ctx_instrumetnedCheck :: "(PropertyMetaData \<times> ASTNode list) list"
  ctx_generalInstrumentationNodes :: "ASTNode list"

type_synonym SrcRangeMap = "nat \<rightharpoonup> (int \<times> int)"

datatype TargetType = TargetFunction | TargetVariable | TargetContract

record PropertyDesc =
  pd_id :: nat
  pd_contract :: string
  pd_filename :: string
  pd_propertySource :: string
  pd_annotationSource :: string
  pd_target :: TargetType
  pd_targetName :: string
  pd_debugEventSignature :: string
  pd_message :: string
  pd_instrumentationRanges :: "string list"
  pd_checkRanges :: "string list"

record InstrumentationMetaData =
  md_propertyMap :: "PropertyDesc list"
  md_instrToOriginalMap :: "(string \<times> string) list"
  md_otherInstrumentation :: "string list"
  md_originalSourceList :: "string list"
  md_instrSourceList :: "string list"

subsection \<open>Functions\<close>

text \<open>\<open>Array.prototype.indexOf\<close>: the first position of the element, \<open>-1\<close> when absent.\<close>

fun indexOfFrom :: "int \<Rightarrow> 'a list \<Rightarrow> 'a \<Rightarrow> int" where
  "indexOfFrom i [] x = - 1"
| "indexOfFrom i (y # ys) x = (if y = x then i else indexOfFrom (i + 1) ys x)"

definition indexOf :: "'a list \<Rightarrow> 'a \<Rightarrow> int" where
  "indexOf xs x = indexOfFrom 0 xs x"

definition reNumber :: "SrcTriple \<Rightarrow> int \<Rightarrow> string" where
  "reNumber src to = (case src of (a, b, c) \<Rightarrow> ppSrcTripple (a, b, to))"

text \<open>The template \<open>`${src[0]}:${src[1]}:${fileIdx}`\<close>.\<close>

definition rangeAt :: "int \<times> int \<Rightarrow> int \<Rightarrow> string" where
  "rangeAt src fileIdx = showInt (fst src) @ '':'' @ showInt (snd src) @ '':'' @ showInt fileIdx"

text \<open>
  \<open>getInstrFileIdx\<close>: the argument is the source unit of the node (\<open>node_unit\<close> of a node,
  the unit's own path when the node is a source unit).
\<close>

definition getInstrFileIdx :: "string option \<Rightarrow> OutputMode \<Rightarrow> string list \<Rightarrow> error + int" where
  "getInstrFileIdx unit mode instrSourceList =
     (if mode \<noteq> Files then Inr 0
      else (case unit of
              None \<Rightarrow> Inl (AssertionFailed ''No source unit for node'')
            | Some path \<Rightarrow>
                (let idx = indexOf instrSourceList path
                 in if idx = - 1
                    then Inl (AssertionFailed ''Unit missing from instrumented source list'')
                    else Inr idx)))"

text \<open>The callback of \<open>unit.walkChildren\<close> in \<open>generateSrcMap2SrcMap\<close>: the pairs it pushes.\<close>

definition walkNode ::
  "OutputMode \<Rightarrow> SrcRangeMap \<Rightarrow> string list \<Rightarrow> SourceUnit \<Rightarrow> int \<Rightarrow> ASTNode
     \<Rightarrow> error + (string \<times> string) list" where
  "walkNode mode newSrcMap instrSourceList unit newSrcListIdx node =
     (if node_src node = (0, 0, 0) then Inr []
      else if node_kind node = StructuredDocumentationNode then Inr []
      else
        (let originalSrc = reNumber (node_src node) newSrcListIdx
         in (case newSrcMap (node_id node) of
               None \<Rightarrow>
                 if node_kind node = ParameterListNode 0 then Inr []
                 else Inl (AssertionFailed ''Missing new source for node'')
             | Some newSrc \<Rightarrow>
                 bindE (getInstrFileIdx (Some (absolutePath unit)) mode instrSourceList)
                   (\<lambda>instrFileIdx. Inr [(rangeAt newSrc instrFileIdx, originalSrc)]))))"

definition walkUnit ::
  "InstrumentationContext \<Rightarrow> SrcRangeMap \<Rightarrow> string list \<Rightarrow> string list \<Rightarrow> SourceUnit
     \<Rightarrow> error + (string \<times> string) list" where
  "walkUnit ctx newSrcMap originalSourceList instrSourceList unit =
     (let newSrcListIdx = indexOf originalSourceList (absolutePath unit)
      in if unit_id unit = unit_id (ctx_utilsUnit ctx) then Inr []
         else bindE (mapE (walkNode (ctx_outputMode ctx) newSrcMap instrSourceList unit newSrcListIdx)
                       (unit_nodes unit))
                (\<lambda>pairs. Inr (concat pairs)))"

definition assertionPair ::
  "InstrumentationContext \<Rightarrow> SrcRangeMap \<Rightarrow> string list \<Rightarrow> PropertyMetaData \<Rightarrow> ASTNode
     \<Rightarrow> error + (string \<times> string)" where
  "assertionPair ctx newSrcMap instrSourceList property assertion =
     bindE (getInstrFileIdx (node_unit assertion) (ctx_outputMode ctx) instrSourceList)
       (\<lambda>instrFileIdx.
          (case newSrcMap (node_id assertion) of
             None \<Rightarrow> Inl (AssertionFailed ''Missing new source for assertion of property'')
           | Some assertionSrc \<Rightarrow>
               Inr (rangeAt assertionSrc instrFileIdx,
                    showInt (fst (annotationLoc property)) @ '':''
                      @ showInt (snd (annotationLoc property)) @ '':''
                      @ showInt (snd (snd (raw_src property))))))"

definition generalNodeSrc ::
  "InstrumentationContext \<Rightarrow> SrcRangeMap \<Rightarrow> string list \<Rightarrow> ASTNode \<Rightarrow> error + string" where
  "generalNodeSrc ctx newSrcMap instrSourceList node =
     (case newSrcMap (node_id node) of
        None \<Rightarrow> Inl (AssertionFailed ''Missing new source for general instrumentation node'')
      | Some nodeSrc \<Rightarrow>
          bindE (getInstrFileIdx (node_unit node) (ctx_outputMode ctx) instrSourceList)
            (\<lambda>instrFileIdx. Inr (rangeAt nodeSrc instrFileIdx)))"

text \<open>\<open>dedup\<close> (of the utilities, not among the sources at hand) is a parameter.\<close>

definition generateSrcMap2SrcMap ::
  "(string list \<Rightarrow> string list) \<Rightarrow> InstrumentationContext \<Rightarrow> SourceUnit list \<Rightarrow> SrcRangeMap
     \<Rightarrow> string list \<Rightarrow> string list \<Rightarrow> error + ((string \<times> string) list \<times> string list)" where
  "generateSrcMap2SrcMap dedup ctx sortedUnits newSrcMap originalSourceList instrSourceList =
     bindE (mapE (walkUnit ctx newSrcMap originalSourceList instrSourceList) sortedUnits)
       (\<lambda>unitPairs.
     bindE (mapE (\<lambda>(property, assertions).
                    mapE (assertionPair ctx newSrcMap instrSourceList property) assertions)
              (ctx_instrumetnedCheck ctx))
       (\<lambda>checkPairs.
     bindE (mapE (generalNodeSrc ctx newSrcMap instrSourceList) (ctx_generalInstrumentationNodes ctx))
       (\<lambda>other.
     Inr (concat unitPairs @ concat checkPairs, dedup other))))"

definition rangeToSrc :: "Range \<Rightarrow> int \<Rightarrow> string" where
  "rangeToSrc rng fileIdx =
     showInt (offset (range_start rng)) @ '':''
       @ showInt (offset (range_end rng) - offset (range_start rng)) @ '':''
       @ showInt fileIdx"

text \<open>The enclosing contract and the target kind of an annotation, with the two assertions.\<close>

definition targetContract :: "AnnotationTarget \<Rightarrow> error + (ContractDefinition \<times> TargetType)" where
  "targetContract target =
     (case target of
        FunctionTarget scope \<Rightarrow>
          (case scope of
             ScopeContract c \<Rightarrow> Inr (c, TargetFunction)
           | ScopeSourceUnit \<Rightarrow>
               Inl (AssertionFailed ''Instrumenting free functions is not supported yet''))
      | VariableTarget scope \<Rightarrow>
          (case scope of
             ScopeContract c \<Rightarrow> Inr (c, TargetVariable)
           | ScopeSourceUnit \<Rightarrow>
               Inl (AssertionFailed ''Instrumenting is supported for state variables only''))
      | ContractTarget c \<Rightarrow> Inr (c, TargetContract))"

definition instrumentationRange ::
  "InstrumentationContext \<Rightarrow> SrcRangeMap \<Rightarrow> string list \<Rightarrow> ASTNode \<Rightarrow> error + string" where
  "instrumentationRange ctx newSrcMap instrSourceList node =
     (case newSrcMap (node_id node) of
        None \<Rightarrow> Inl (AssertionFailed ''Missing source for instrumentation node'')
      | Some src \<Rightarrow>
          bindE (getInstrFileIdx (node_unit node) (ctx_outputMode ctx) instrSourceList)
            (\<lambda>instrFileIdx. Inr (rangeAt src instrFileIdx)))"

definition checkRange ::
  "InstrumentationContext \<Rightarrow> SrcRangeMap \<Rightarrow> string list \<Rightarrow> ASTNode \<Rightarrow> error + string" where
  "checkRange ctx newSrcMap instrSourceList annotationCheck =
     bindE (getInstrFileIdx (node_unit annotationCheck) (ctx_outputMode ctx) instrSourceList)
       (\<lambda>annotationFileIdx.
          (case newSrcMap (node_id annotationCheck) of
             None \<Rightarrow> Inl (AssertionFailed ''Missing src range for annotation check node'')
           | Some r \<Rightarrow> Inr (rangeAt r annotationFileIdx)))"

text \<open>
  One iteration of the loop of \<open>generatePropertyMap\<close>: the records it pushes for one
  annotation. Reading \<open>evaluationStatements\<close> for an annotation that has no entry throws a
  \<open>TypeError\<close> (\<open>.map\<close> of \<open>undefined\<close>).
\<close>

definition propertyDescs ::
  "(string list \<Rightarrow> string list) \<Rightarrow> InstrumentationContext \<Rightarrow> SrcRangeMap \<Rightarrow> string list
     \<Rightarrow> AnnotationMetaData \<Rightarrow> error + PropertyDesc list" where
  "propertyDescs dedup ctx newSrcMap instrSourceList annotation =
     (case annotation of
        UserFunctionDefinition u \<Rightarrow> Inr []
      | Property a \<Rightarrow>
          bindE (targetContract (prop_target a)) (\<lambda>(contract, targetType).
          (let filename = vScope_sourceEntryKey contract;
               signature = (case ctx_debugEventDefs ctx (prop_id a) of
                              Some canonicalSignature \<Rightarrow> canonicalSignature
                            | None \<Rightarrow> []);
               propertySource = rangeToSrc (predicateFileLoc a) (vScope_sourceListIndex contract);
               annotationSource =
                 rangeToSrc (annotationFileRange a) (vScope_sourceListIndex contract)
           in
          bindE (case ctx_evaluationStatements ctx (prop_id a) of
                   None \<Rightarrow> Inl TypeError
                 | Some nodes \<Rightarrow> mapE (instrumentationRange ctx newSrcMap instrSourceList) nodes)
            (\<lambda>instrumentationRanges.
          bindE (case map_of (map (\<lambda>(p, checks). (prop_id p, checks)) (ctx_instrumetnedCheck ctx))
                        (prop_id a) of
                   None \<Rightarrow> Inl (AssertionFailed ''Missing check expression'')
                 | Some annotationChecks \<Rightarrow>
                     mapE (checkRange ctx newSrcMap instrSourceList) annotationChecks)
            (\<lambda>checkRanges.
          Inr [\<lparr>pd_id = prop_id a,
                pd_contract = contract_name contract,
                pd_filename = filename,
                pd_propertySource = propertySource,
                pd_annotationSource = annotationSource,
                pd_target = targetType,
                pd_targetName = targetName a,
                pd_debugEventSignature = signature,
                pd_message = message a,
                pd_instrumentationRanges = dedup instrumentationRanges,
                pd_checkRanges = dedup checkRanges\<rparr>])))))"

definition generatePropertyMap ::
  "(string list \<Rightarrow> string list) \<Rightarrow> InstrumentationContext \<Rightarrow> SrcRangeMap \<Rightarrow> string list
     \<Rightarrow> error + PropertyDesc list" where
  "generatePropertyMap dedup ctx newSrcMap instrSourceList =
     bindE (mapE (propertyDescs dedup ctx newSrcMap instrSourceList) (ctx_annotations ctx))
       (\<lambda>pushed. Inr (concat pushed))"

definition instrumentedName :: "SourceUnit \<Rightarrow> string \<Rightarrow> string" where
  "instrumentedName utils name =
     (if name = ''--'' \<or> name = absolutePath utils then name else name @ ''.instrumented'')"

definition generateInstrumentationMetadata ::
  "(string list \<Rightarrow> string list) \<Rightarrow> InstrumentationContext \<Rightarrow> SrcRangeMap \<Rightarrow> SourceUnit list
     \<Rightarrow> bool \<Rightarrow> string option \<Rightarrow> error + InstrumentationMetaData" where
  "generateInstrumentationMetadata dedup ctx newSrcMap originalUnits arm outputFile =
     (let utils = ctx_utilsUnit ctx;
          originalSourceList =
            map absolutePath (filter (\<lambda>unit. unit_id unit \<noteq> unit_id utils) originalUnits)
      in
     bindE (if ctx_outputMode ctx = Files then Inr (originalSourceList @ [absolutePath utils])
            else (case outputFile of
                    None \<Rightarrow> Inl (AssertionFailed ''Must provide output file'')
                  | Some file \<Rightarrow> Inr [file]))
       (\<lambda>instrSourceList.
     bindE (generateSrcMap2SrcMap dedup ctx originalUnits newSrcMap originalSourceList
              instrSourceList)
       (\<lambda>(src2srcMap, other).
     bindE (generatePropertyMap dedup ctx newSrcMap instrSourceList)
       (\<lambda>properties.
     Inr \<lparr>md_propertyMap = properties,
          md_instrToOriginalMap = src2srcMap,
          md_otherInstrumentation = other,
          md_originalSourceList =
            (if arm then map (\<lambda>name. name @ ''.original'') originalSourceList
             else originalSourceList),
          md_instrSourceList = map (instrumentedName utils) instrSourceList\<rparr>))))"

subsection \<open>The source lists of the metadata record\<close>

lemma bindE_Inr:
  "bindE r f = Inr y \<longleftrightarrow> (\<exists>x. r = Inr x \<and> f x = Inr y)"
  by (cases r) (simp_all add: bindE_def)

text \<open>The paths of the original units, the utilities unit left out.\<close>

definition originalPaths :: "InstrumentationContext \<Rightarrow> SourceUnit list \<Rightarrow> string list" where
  "originalPaths ctx originalUnits =
     map absolutePath
       (filter (\<lambda>unit. unit_id unit \<noteq> unit_id (ctx_utilsUnit ctx)) originalUnits)"

lemma metadata_originalSourceList:
  assumes "generateInstrumentationMetadata dedup ctx newSrcMap originalUnits arm outputFile = Inr md"
  shows "md_originalSourceList md =
           (if arm then map (\<lambda>name. name @ ''.original'') (originalPaths ctx originalUnits)
            else originalPaths ctx originalUnits)"
  using assms
  by (auto simp: generateInstrumentationMetadata_def Let_def bindE_Inr originalPaths_def
        case_prod_beta split: if_splits option.splits)

lemma metadata_instrSourceList_files:
  assumes "generateInstrumentationMetadata dedup ctx newSrcMap originalUnits arm outputFile = Inr md"
    and "ctx_outputMode ctx = Files"
  shows "md_instrSourceList md =
           map (instrumentedName (ctx_utilsUnit ctx)) (originalPaths ctx originalUnits)
           @ [absolutePath (ctx_utilsUnit ctx)]"
  using assms
  by (auto simp: generateInstrumentationMetadata_def Let_def bindE_Inr originalPaths_def
        instrumentedName_def case_prod_beta split: if_splits option.splits)

lemma metadata_instrSourceList_other:
  assumes "generateInstrumentationMetadata dedup ctx newSrcMap originalUnits arm outputFile = Inr md"
    and "ctx_outputMode ctx \<noteq> Files"
  shows "\<exists>file. outputFile = Some file
           \<and> md_instrSourceList md = [instrumentedName (ctx_utilsUnit ctx) file]"
  using assms
  by (auto simp: generateInstrumentationMetadata_def Let_def bindE_Inr originalPaths_def
        case_prod_beta split: if_splits option.splits)

text \<open>
  C9. In the metadata record that a run returns, \<open>originalSourceList\<close> holds the path of
  every original unit (the utilities unit left out), each with \<open>.original\<close> appended exactly
  when \<open>arm\<close> is set and unchanged otherwise; \<open>instrSourceList\<close> holds, in \<open>files\<close> mode,
  these paths and then the path of the utilities unit, and in the other modes the output file,
  each with \<open>.instrumented\<close> appended, except that the path of the utilities unit and the
  marker \<open>--\<close> stay as they are.
\<close>

theorem metadata_source_lists:
  assumes "generateInstrumentationMetadata dedup ctx newSrcMap originalUnits arm outputFile = Inr md"
  shows "md_originalSourceList md =
           (if arm then map (\<lambda>name. name @ ''.original'') (originalPaths ctx originalUnits)
            else originalPaths ctx originalUnits)
         \<and> (ctx_outputMode ctx = Files \<longrightarrow>
              md_instrSourceList md =
                map (\<lambda>name. if name = ''--'' \<or> name = absolutePath (ctx_utilsUnit ctx) then name
                            else name @ ''.instrumented'')
                  (originalPaths ctx originalUnits)
                @ [absolutePath (ctx_utilsUnit ctx)])
         \<and> (ctx_outputMode ctx \<noteq> Files \<longrightarrow>
              (\<exists>file. outputFile = Some file
                 \<and> md_instrSourceList md =
                     [if file = ''--'' \<or> file = absolutePath (ctx_utilsUnit ctx) then file
                      else file @ ''.instrumented'']))"
  using metadata_originalSourceList [OF assms] metadata_instrSourceList_files [OF assms]
    metadata_instrSourceList_other [OF assms]
  unfolding instrumentedName_def by blast

subsection \<open>An example run\<close>

definition exUtilsUnit :: SourceUnit where
  "exUtilsUnit = \<lparr>unit_id = 100, absolutePath = ''__scribble_ReentrancyUtils.sol'',
     sourceEntryKey = ''__scribble_ReentrancyUtils.sol'', vImportDirectives = [],
     vFreeFunctions = [], vContracts = [], unit_nodes = []\<rparr>"

definition exContract :: ContractDefinition where
  "exContract = \<lparr>contract_id = 1, contract_name = ''Token'', contract_kind = Contract,
     vLinearizedBaseContracts = [1], vFunctions = [],
     vScope_sourceEntryKey = ''a.sol'', vScope_sourceListIndex = 0\<rparr>"

definition exUnit :: SourceUnit where
  "exUnit = \<lparr>unit_id = 0, absolutePath = ''a.sol'', sourceEntryKey = ''a.sol'',
     vImportDirectives = [], vFreeFunctions = [], vContracts = [exContract],
     unit_nodes = [\<lparr>node_id = 1, node_src = (50, 30, 0), node_kind = OtherNode,
                     node_unit = Some ''a.sol''\<rparr>]\<rparr>"

definition exProperty :: PropertyMetaData where
  "exProperty = \<lparr>prop_id = 0, prop_target = ContractTarget exContract, targetName = ''Token'',
     predicateFileLoc = \<lparr>range_start = \<lparr>offset = 15, line = 1, column = 15\<rparr>,
                          range_end = \<lparr>offset = 21, line = 1, column = 21\<rparr>\<rparr>,
     annotationFileRange = \<lparr>range_start = \<lparr>offset = 4, line = 1, column = 4\<rparr>,
                          range_end = \<lparr>offset = 22, line = 1, column = 22\<rparr>\<rparr>,
     message = ''balance is bounded'', original = ''#invariant x >= 0;'',
     raw_src = (0, 25, 0), annotationLoc = (4, 18)\<rparr>"

definition exContext :: InstrumentationContext where
  "exContext = \<lparr>ctx_units = [exUnit], ctx_files = [''a.sol'' \<mapsto> ''contract Token { }''],
     ctx_outputMode = Files, ctx_utilsUnit = exUtilsUnit,
     ctx_annotations =
       [UserFunctionDefinition \<lparr>ufd_id = 1, ufd_original = ''#define f() uint = 1;''\<rparr>,
        Property exProperty],
     ctx_debugEventDefs = [0 \<mapsto> ''AssertionFailed(string)''],
     ctx_evaluationStatements =
       [0 \<mapsto> [\<lparr>node_id = 7, node_src = (0, 0, 0), node_kind = OtherNode,
                 node_unit = Some ''a.sol''\<rparr>]],
     ctx_instrumetnedCheck =
       [(exProperty, [\<lparr>node_id = 8, node_src = (0, 0, 0), node_kind = OtherNode,
                       node_unit = Some ''a.sol''\<rparr>])],
     ctx_generalInstrumentationNodes = []\<rparr>"

definition exSrcMap :: SrcRangeMap where
  "exSrcMap = [1 \<mapsto> (60, 30), 7 \<mapsto> (100, 12), 8 \<mapsto> (120, 9)]"

definition exPropertyDesc :: PropertyDesc where
  "exPropertyDesc = \<lparr>pd_id = 0, pd_contract = ''Token'', pd_filename = ''a.sol'',
     pd_propertySource = ''15:6:0'', pd_annotationSource = ''4:18:0'',
     pd_target = TargetContract, pd_targetName = ''Token'',
     pd_debugEventSignature = ''AssertionFailed(string)'',
     pd_message = ''balance is bounded'', pd_instrumentationRanges = [''100:12:0''],
     pd_checkRanges = [''120:9:0'']\<rparr>"

definition exMetaData :: InstrumentationMetaData where
  "exMetaData = \<lparr>md_propertyMap = [exPropertyDesc],
     md_instrToOriginalMap = [(''60:30:0'', ''50:30:0''), (''120:9:0'', ''4:18:0'')],
     md_otherInstrumentation = [],
     md_originalSourceList = [''a.sol.original''],
     md_instrSourceList = [''a.sol.instrumented'', ''__scribble_ReentrancyUtils.sol'']\<rparr>"

lemma exMetaData_generated:
  "generateInstrumentationMetadata newSet exContext exSrcMap [exUnit, exUtilsUnit] True None
     = Inr exMetaData"
  by code_simp

lemma exPropertyDesc_generated:
  "generatePropertyMap newSet exContext exSrcMap [''a.sol'', ''__scribble_ReentrancyUtils.sol'']
     = Inr [exPropertyDesc]"
  by code_simp

theorem metadata_source_lists_witness:
  "generateInstrumentationMetadata newSet exContext exSrcMap [exUnit, exUtilsUnit] True None
     = Inr exMetaData
   \<and> md_originalSourceList exMetaData = [''a.sol.original'']
   \<and> md_instrSourceList exMetaData = [''a.sol.instrumented'', ''__scribble_ReentrancyUtils.sol'']"
  using metadata_source_lists [OF exMetaData_generated] exMetaData_generated
  by (simp add: exMetaData_def)

subsection \<open>The property map\<close>

text \<open>The property annotations of a list of annotations, in order.\<close>

fun propertiesOf :: "AnnotationMetaData list \<Rightarrow> PropertyMetaData list" where
  "propertiesOf [] = []"
| "propertiesOf (Property p # rest) = p # propertiesOf rest"
| "propertiesOf (UserFunctionDefinition u # rest) = propertiesOf rest"

fun enclosingContract :: "AnnotationTarget \<Rightarrow> ContractDefinition option" where
  "enclosingContract (FunctionTarget (ScopeContract c)) = Some c"
| "enclosingContract (FunctionTarget ScopeSourceUnit) = None"
| "enclosingContract (VariableTarget (ScopeContract c)) = Some c"
| "enclosingContract (VariableTarget ScopeSourceUnit) = None"
| "enclosingContract (ContractTarget c) = Some c"

fun targetKind :: "AnnotationTarget \<Rightarrow> TargetType" where
  "targetKind (FunctionTarget scope) = TargetFunction"
| "targetKind (VariableTarget scope) = TargetVariable"
| "targetKind (ContractTarget c) = TargetContract"

text \<open>
  What it means for a record to carry the data of a property annotation: its identifier,
  the name of the enclosing contract, the kind and name of the target, the message, the
  signature of its debug event (empty when it has none), and the source ranges of the
  property and of the annotation in the file of the enclosing contract.
\<close>

definition describes :: "InstrumentationContext \<Rightarrow> PropertyMetaData \<Rightarrow> PropertyDesc \<Rightarrow> bool" where
  "describes ctx p d =
     (case enclosingContract (prop_target p) of
        None \<Rightarrow> False
      | Some c \<Rightarrow>
          pd_id d = prop_id p
          \<and> pd_contract d = contract_name c
          \<and> pd_target d = targetKind (prop_target p)
          \<and> pd_targetName d = targetName p
          \<and> pd_message d = message p
          \<and> pd_debugEventSignature d =
               (case ctx_debugEventDefs ctx (prop_id p) of Some sig \<Rightarrow> sig | None \<Rightarrow> [])
          \<and> pd_propertySource d = rangeToSrc (predicateFileLoc p) (vScope_sourceListIndex c)
          \<and> pd_annotationSource d =
               rangeToSrc (annotationFileRange p) (vScope_sourceListIndex c))"

lemma targetContract_Inr:
  "targetContract target = Inr (c, k) \<Longrightarrow>
     enclosingContract target = Some c \<and> targetKind target = k"
  by (cases target rule: enclosingContract.cases) (auto simp: targetContract_def)

lemma propertyDescs_Property:
  assumes "propertyDescs dedup ctx newSrcMap instrSourceList (Property p) = Inr ds"
  shows "\<exists>d. ds = [d] \<and> describes ctx p d"
proof -
  from assms obtain c k where tc: "targetContract (prop_target p) = Inr (c, k)"
    by (auto simp: propertyDescs_def bindE_Inr)
  from targetContract_Inr [OF tc] have enc: "enclosingContract (prop_target p) = Some c"
    and kind: "targetKind (prop_target p) = k" by simp_all
  from assms tc obtain ir cr where
    "ds = [\<lparr>pd_id = prop_id p,
                pd_contract = contract_name c,
                pd_filename = vScope_sourceEntryKey c,
                pd_propertySource = rangeToSrc (predicateFileLoc p) (vScope_sourceListIndex c),
                pd_annotationSource =
                  rangeToSrc (annotationFileRange p) (vScope_sourceListIndex c),
                pd_target = k,
                pd_targetName = targetName p,
                pd_debugEventSignature =
                  (case ctx_debugEventDefs ctx (prop_id p) of Some sig \<Rightarrow> sig | None \<Rightarrow> []),
                pd_message = message p,
                pd_instrumentationRanges = ir,
                pd_checkRanges = cr\<rparr>]"
    by (auto simp: propertyDescs_def bindE_Inr Let_def)
  then show ?thesis
    using enc kind by (simp add: describes_def)
qed

lemma propertyDescs_UserFunctionDefinition:
  "propertyDescs dedup ctx newSrcMap instrSourceList (UserFunctionDefinition u) = Inr []"
  by (simp add: propertyDescs_def)

lemma mapE_Cons_Inr:
  "mapE f (x # xs) = Inr zs \<longleftrightarrow> (\<exists>y ys. f x = Inr y \<and> mapE f xs = Inr ys \<and> zs = y # ys)"
  by (auto split: sum.splits)

lemma mapE_propertyDescs:
  "mapE (propertyDescs dedup ctx newSrcMap instrSourceList) annots = Inr pushed \<Longrightarrow>
     list_all2 (describes ctx) (propertiesOf annots) (concat pushed)"
proof (induction annots arbitrary: pushed)
  case Nil
  then show ?case by simp
next
  case (Cons a annots)
  from Cons.prems obtain ds rest where
    a: "propertyDescs dedup ctx newSrcMap instrSourceList a = Inr ds"
    and rest: "mapE (propertyDescs dedup ctx newSrcMap instrSourceList) annots = Inr rest"
    and pushed: "pushed = ds # rest"
    unfolding mapE_Cons_Inr by blast
  note IH = Cons.IH [OF rest]
  show ?case
  proof (cases a)
    case (Property p)
    with a obtain d where "ds = [d]" "describes ctx p d"
      using propertyDescs_Property by blast
    with IH show ?thesis by (simp add: Property pushed)
  next
    case (UserFunctionDefinition u)
    with a have "ds = []" by (simp add: propertyDescs_UserFunctionDefinition)
    with IH show ?thesis by (simp add: UserFunctionDefinition pushed)
  qed
qed

text \<open>
  C5. The property map that \<open>generatePropertyMap\<close> returns has exactly one record for each
  property annotation (\<open>if_succeeds\<close> or \<open>invariant\<close>) recorded in the instrumentation
  context, in the order of the annotations, and none for a \<open>define\<close> annotation; the record
  carries the annotation's identifier, the name of its enclosing contract, the kind and the
  name of its target, its message, the signature of its debug event, and the source ranges
  of the property and of the annotation.
\<close>

theorem propertyMap_one_record_per_property:
  assumes "generatePropertyMap dedup ctx newSrcMap instrSourceList = Inr result"
  shows "list_all2 (describes ctx) (propertiesOf (ctx_annotations ctx)) result"
proof -
  from assms obtain pushed where
    "mapE (propertyDescs dedup ctx newSrcMap instrSourceList) (ctx_annotations ctx) = Inr pushed"
    and "result = concat pushed"
    by (auto simp: generatePropertyMap_def bindE_Inr)
  then show ?thesis
    using mapE_propertyDescs by blast
qed

theorem propertyMap_one_record_per_property_witness:
  "generatePropertyMap newSet exContext exSrcMap [''a.sol'', ''__scribble_ReentrancyUtils.sol'']
     = Inr [exPropertyDesc]
   \<and> propertiesOf (ctx_annotations exContext) = [exProperty]
   \<and> list_all2 (describes exContext) [exProperty] [exPropertyDesc]"
proof -
  have props: "propertiesOf (ctx_annotations exContext) = [exProperty]"
    by (simp add: exContext_def)
  show ?thesis
    using propertyMap_one_record_per_property [OF exPropertyDesc_generated]
      exPropertyDesc_generated props
    by simp
qed

section \<open>Contracts needing instrumentation (\<open>computeContractsNeedingInstr\<close>)\<close>

text \<open>
  The class-hierarchy analysis: \<open>parents\<close> maps a contract to the list of its bases,
  \<open>children\<close> maps a contract to the set of the contracts that derive from it (listed in the
  order of insertion). Contracts are referred to by their identifiers.
\<close>

record CHA =
  cha_parents :: "(nat \<times> nat list) list"
  cha_children :: "(nat \<times> nat list) list"

text \<open>\<open>annot instanceof PropertyMetaData\<close>.\<close>

fun isPropertyMetaData :: "AnnotationMetaData \<Rightarrow> bool" where
  "isPropertyMetaData (Property p) = True"
| "isPropertyMetaData (UserFunctionDefinition u) = False"

text \<open>
  The initial \<open>wave\<close>: the keys of the entries of \<open>contractAnnotMap\<close> whose annotation list
  holds at least one property annotation, in the order of the entries.
\<close>

definition annotatedContracts :: "(nat \<times> AnnotationMetaData list) list \<Rightarrow> nat list" where
  "annotatedContracts contractAnnotMap =
     map fst (filter (\<lambda>(contract, annots). length (filter isPropertyMetaData annots) > 0)
                contractAnnotMap)"

text \<open>
  The \<open>while\<close> loop. \<open>wave.pop()\<close> takes the last element and \<open>wave.push\<close> appends; iterating
  over \<open>cha.parents.get(cur)\<close> or \<open>cha.children.get(cur)\<close> when the map has no entry for
  \<open>cur\<close> throws a \<open>TypeError\<close>. The loop ends because every expansion adds to \<open>visited\<close> a
  key of \<open>parents\<close> that was not in it.
\<close>

function bfs :: "CHA \<Rightarrow> nat list \<Rightarrow> nat set \<Rightarrow> error + nat set" where
  "bfs cha wave visited =
     (if wave = [] then Inr visited
      else
        (let cur = last wave; popped = butlast wave
         in if cur \<in> visited then bfs cha popped visited
            else
              (case map_of (cha_parents cha) cur of
                 None \<Rightarrow> Inl TypeError
               | Some parents \<Rightarrow>
                   (case map_of (cha_children cha) cur of
                      None \<Rightarrow> Inl TypeError
                    | Some children \<Rightarrow>
                        bfs cha
                          (popped @ filter (\<lambda>parent. parent \<notin> insert cur visited) parents
                             @ filter (\<lambda>child. child \<notin> insert cur visited) children)
                          (insert cur visited)))))"
  by pat_completeness auto
termination
proof (relation "measures [\<lambda>(cha, wave, visited). card (fst ` set (cha_parents cha) - visited),
                           \<lambda>(cha, wave, visited). length wave]", goal_cases)
  case 1
  show ?case by simp
next
  case (2 cha wave visited cur popped)
  then show ?case by (cases wave rule: rev_cases) auto
next
  case (3 cha wave visited cur popped parents children)
  then have "(cur, parents) \<in> set (cha_parents cha)"
    by (auto dest: map_of_SomeD)
  then have "cur \<in> fst ` set (cha_parents cha)"
    by force
  with 3 have "fst ` set (cha_parents cha) - insert cur visited \<subset> fst ` set (cha_parents cha) - visited"
    by auto
  then have "card (fst ` set (cha_parents cha) - insert cur visited) < card (fst ` set (cha_parents cha) - visited)"
    by (intro psubset_card_mono) auto
  then show ?case by simp
qed

declare bfs.simps [simp del]

definition computeContractsNeedingInstr ::
  "CHA \<Rightarrow> (nat \<times> AnnotationMetaData list) list \<Rightarrow> error + nat set" where
  "computeContractsNeedingInstr cha contractAnnotMap =
     bfs cha (annotatedContracts contractAnnotMap) {}"

text \<open>
  The edges of the inheritance graph that the loop follows: from a contract to each of its
  parents and to each of its children.
\<close>

definition inheritanceEdges :: "CHA \<Rightarrow> (nat \<times> nat) set" where
  "inheritanceEdges cha =
     {(c, d). (\<exists>parents. map_of (cha_parents cha) c = Some parents \<and> d \<in> set parents)
            \<or> (\<exists>children. map_of (cha_children cha) c = Some children \<and> d \<in> set children)}"

lemma bfs_Nil: "bfs cha [] visited = Inr visited"
  by (simp add: bfs.simps)

lemma bfs_visited:
  "cur \<in> visited \<Longrightarrow> bfs cha (popped @ [cur]) visited = bfs cha popped visited"
  by (subst bfs.simps) simp

lemma bfs_expand:
  "cur \<notin> visited \<Longrightarrow> map_of (cha_parents cha) cur = Some parents \<Longrightarrow>
   map_of (cha_children cha) cur = Some children \<Longrightarrow>
   bfs cha (popped @ [cur]) visited =
     bfs cha (popped @ filter (\<lambda>parent. parent \<notin> insert cur visited) parents
                @ filter (\<lambda>child. child \<notin> insert cur visited) children)
       (insert cur visited)"
  by (subst bfs.simps) simp

lemma bfs_no_parents:
  "cur \<notin> visited \<Longrightarrow> map_of (cha_parents cha) cur = None \<Longrightarrow>
   bfs cha (popped @ [cur]) visited = Inl TypeError"
  by (subst bfs.simps) simp

lemma bfs_no_children:
  "cur \<notin> visited \<Longrightarrow> map_of (cha_parents cha) cur = Some parents \<Longrightarrow>
   map_of (cha_children cha) cur = None \<Longrightarrow>
   bfs cha (popped @ [cur]) visited = Inl TypeError"
  by (subst bfs.simps) simp

lemma rtrancl_Image_closed: "A \<subseteq> r\<^sup>* `` B \<Longrightarrow> r\<^sup>* `` A \<subseteq> r\<^sup>* `` B"
  by (auto intro: rtrancl_trans)

lemma bfs_sound:
  "bfs cha wave visited = Inr V \<Longrightarrow>
     visited \<union> set wave \<subseteq> V
     \<and> (\<forall>x \<in> V - visited. \<forall>y. (x, y) \<in> inheritanceEdges cha \<longrightarrow> y \<in> V)
     \<and> V \<subseteq> visited \<union> (inheritanceEdges cha)\<^sup>* `` set wave"
proof (induction cha wave visited arbitrary: V rule: bfs.induct)
  case (1 cha wave visited)
  show ?case
  proof (cases wave rule: rev_cases)
    case Nil
    with "1.prems" show ?thesis by (simp add: bfs_Nil)
  next
    case (snoc popped cur)
    then have ne: "wave \<noteq> []" and lst: "last wave = cur" and bl: "butlast wave = popped"
      by simp_all
    show ?thesis
    proof (cases "cur \<in> visited")
      case True
      with "1.prems" snoc have run: "bfs cha popped visited = Inr V"
        by (simp add: bfs_visited)
      then have run': "bfs cha (butlast wave) visited = Inr V" by (simp add: bl)
      have "visited \<union> set popped \<subseteq> V
        \<and> (\<forall>x \<in> V - visited. \<forall>y. (x, y) \<in> inheritanceEdges cha \<longrightarrow> y \<in> V)
        \<and> V \<subseteq> visited \<union> (inheritanceEdges cha)\<^sup>* `` set popped"
        using "1.IH"(1) [OF ne refl refl _ run'] by (simp add: lst bl True)
      then show ?thesis using True snoc by auto
    next
      case False
      from "1.prems" snoc False obtain parents where
        ps: "map_of (cha_parents cha) cur = Some parents"
        by (cases "map_of (cha_parents cha) cur") (auto simp: bfs_no_parents)
      from "1.prems" snoc False ps obtain children where
        cs: "map_of (cha_children cha) cur = Some children"
        by (cases "map_of (cha_children cha) cur") (auto simp: bfs_no_children)
      let ?wave = "popped @ filter (\<lambda>parent. parent \<notin> insert cur visited) parents
                @ filter (\<lambda>child. child \<notin> insert cur visited) children"
      from "1.prems" snoc False ps cs have run0: "bfs cha ?wave (insert cur visited) = Inr V"
        by (simp add: bfs_expand)
      then have run: "bfs cha (butlast wave @ filter (\<lambda>parent. parent \<notin> insert (last wave) visited) parents
                @ filter (\<lambda>child. child \<notin> insert (last wave) visited) children) (insert (last wave) visited) = Inr V"
        by (simp add: bl lst)
      have IH: "insert cur visited \<union> set ?wave \<subseteq> V
        \<and> (\<forall>x \<in> V - insert cur visited. \<forall>y. (x, y) \<in> inheritanceEdges cha \<longrightarrow> y \<in> V)
        \<and> V \<subseteq> insert cur visited \<union> (inheritanceEdges cha)\<^sup>* `` set ?wave"
        using "1.IH"(2) [OF ne refl refl _ _ _ run] by (simp add: lst bl False ps cs)
      have succ: "\<And>y. (cur, y) \<in> inheritanceEdges cha \<longleftrightarrow> y \<in> set parents \<or> y \<in> set children"
        by (auto simp: inheritanceEdges_def ps cs)
      have a: "visited \<union> set wave \<subseteq> V" using IH snoc by auto
      have b: "\<forall>x \<in> V - visited. \<forall>y. (x, y) \<in> inheritanceEdges cha \<longrightarrow> y \<in> V"
      proof (intro ballI allI impI)
        fix x y assume x: "x \<in> V - visited" and e: "(x, y) \<in> inheritanceEdges cha"
        show "y \<in> V"
        proof (cases "x = cur")
          case True
          with e succ have "y \<in> set parents \<or> y \<in> set children" by simp
          then have "y \<in> insert cur visited \<union> set ?wave" by auto
          with IH show ?thesis by blast
        next
          case False
          with x e IH show ?thesis by blast
        qed
      qed
      have "set ?wave \<subseteq> (inheritanceEdges cha)\<^sup>* `` set wave"
      proof
        fix y assume "y \<in> set ?wave"
        then consider "y \<in> set popped" | "y \<in> set parents \<or> y \<in> set children" by auto
        then show "y \<in> (inheritanceEdges cha)\<^sup>* `` set wave"
        proof cases
          case 1
          then show ?thesis using snoc by auto
        next
          case 2
          with succ have "(cur, y) \<in> inheritanceEdges cha" by simp
          then show ?thesis using snoc by auto
        qed
      qed
      then have "(inheritanceEdges cha)\<^sup>* `` set ?wave \<subseteq> (inheritanceEdges cha)\<^sup>* `` set wave"
        by (rule rtrancl_Image_closed)
      moreover have "cur \<in> (inheritanceEdges cha)\<^sup>* `` set wave" using snoc by auto
      ultimately have c: "V \<subseteq> visited \<union> (inheritanceEdges cha)\<^sup>* `` set wave"
        using IH by blast
      from a b c show ?thesis by blast
    qed
  qed
qed


lemma annotatedContracts_iff:
  "a \<in> set (annotatedContracts contractAnnotMap) \<longleftrightarrow>
     (\<exists>annots p. (a, annots) \<in> set contractAnnotMap \<and> Property p \<in> set annots)"
proof -
  have "\<And>annots. (length (filter isPropertyMetaData annots) > 0) = (\<exists>p. Property p \<in> set annots)"
  proof -
    fix annots
    have "(\<exists>x \<in> set annots. isPropertyMetaData x) = (\<exists>p. Property p \<in> set annots)"
      by (metis isPropertyMetaData.elims(2) isPropertyMetaData.simps(1))
    then show "(length (filter isPropertyMetaData annots) > 0) = (\<exists>p. Property p \<in> set annots)"
      by (simp add: filter_empty_conv)
  qed
  then show ?thesis
    by (force simp: annotatedContracts_def)
qed

lemma computeContractsNeedingInstr_sound:
  assumes "computeContractsNeedingInstr cha contractAnnotMap = Inr V"
  shows "V = (inheritanceEdges cha)\<^sup>* `` set (annotatedContracts contractAnnotMap)"
proof -
  let ?E = "inheritanceEdges cha" and ?S = "set (annotatedContracts contractAnnotMap)"
  from assms have "bfs cha (annotatedContracts contractAnnotMap) {} = Inr V"
    by (simp add: computeContractsNeedingInstr_def)
  from bfs_sound [OF this] have start: "?S \<subseteq> V"
    and closed: "\<And>x y. x \<in> V \<Longrightarrow> (x, y) \<in> ?E \<Longrightarrow> y \<in> V"
    and upper: "V \<subseteq> ?E\<^sup>* `` ?S"
    by auto
  have "?E\<^sup>* `` ?S \<subseteq> V"
  proof
    fix c assume "c \<in> ?E\<^sup>* `` ?S"
    then obtain a where a: "a \<in> ?S" and r: "(a, c) \<in> ?E\<^sup>*" by auto
    from r show "c \<in> V"
    proof (induction rule: rtrancl_induct)
      case base
      with a start show ?case by auto
    next
      case (step y z)
      with closed show ?case by blast
    qed
  qed
  with upper show ?thesis by auto
qed

text \<open>
  A hierarchy is complete for a list of start contracts when both maps have an entry for each
  start contract and for each contract that occurs as a parent or a child.
\<close>

definition hasEntries :: "CHA \<Rightarrow> nat \<Rightarrow> bool" where
  "hasEntries cha c \<longleftrightarrow>
     map_of (cha_parents cha) c \<noteq> None \<and> map_of (cha_children cha) c \<noteq> None"

definition chaComplete :: "CHA \<Rightarrow> nat list \<Rightarrow> bool" where
  "chaComplete cha starts \<longleftrightarrow>
     (\<forall>c \<in> set starts. hasEntries cha c)
     \<and> (\<forall>(c, parents) \<in> set (cha_parents cha). \<forall>p \<in> set parents. hasEntries cha p)
     \<and> (\<forall>(c, children) \<in> set (cha_children cha). \<forall>d \<in> set children. hasEntries cha d)"

lemma bfs_total:
  "\<forall>(c, parents) \<in> set (cha_parents cha). \<forall>p \<in> set parents. hasEntries cha p \<Longrightarrow>
   \<forall>(c, children) \<in> set (cha_children cha). \<forall>d \<in> set children. hasEntries cha d \<Longrightarrow>
   \<forall>c \<in> set wave. hasEntries cha c \<Longrightarrow> \<exists>V. bfs cha wave visited = Inr V"
proof (induction cha wave visited rule: bfs.induct)
  case (1 cha wave visited)
  show ?case
  proof (cases wave rule: rev_cases)
    case Nil
    then show ?thesis by (simp add: bfs_Nil)
  next
    case (snoc popped cur)
    then have ne: "wave \<noteq> []" and lst: "last wave = cur" and bl: "butlast wave = popped"
      by simp_all
    from "1.prems"(3) snoc have pop: "\<forall>c \<in> set popped. hasEntries cha c" and cur: "hasEntries cha cur"
      by simp_all
    show ?thesis
    proof (cases "cur \<in> visited")
      case True
      have "\<exists>V. bfs cha (butlast wave) visited = Inr V"
        using "1.IH"(1) [OF ne refl refl _ "1.prems"(1,2)] True pop by (simp add: lst bl)
      then show ?thesis using True snoc by (simp add: bfs_visited)
    next
      case False
      from cur obtain parents children where
        ps: "map_of (cha_parents cha) cur = Some parents"
        and cs: "map_of (cha_children cha) cur = Some children"
        by (auto simp: hasEntries_def)
      from ps have "(cur, parents) \<in> set (cha_parents cha)" by (rule map_of_SomeD)
      with "1.prems"(1) have p: "\<forall>p \<in> set parents. hasEntries cha p" by blast
      from cs have "(cur, children) \<in> set (cha_children cha)" by (rule map_of_SomeD)
      with "1.prems"(2) have c: "\<forall>d \<in> set children. hasEntries cha d" by blast
      have "\<exists>V. bfs cha (butlast wave @ filter (\<lambda>parent. parent \<notin> insert (last wave) visited) parents
                @ filter (\<lambda>child. child \<notin> insert (last wave) visited) children)
                (insert (last wave) visited) = Inr V"
      proof (rule "1.IH"(2) [OF ne refl refl _ _ _ "1.prems"(1,2)])
        show "last wave \<notin> visited" using False by (simp add: lst)
        show "map_of (cha_parents cha) (last wave) = Some parents" using ps by (simp add: lst)
        show "map_of (cha_children cha) (last wave) = Some children" using cs by (simp add: lst)
        show "\<forall>c\<in>set (butlast wave @ filter (\<lambda>parent. parent \<notin> insert (last wave) visited) parents
                @ filter (\<lambda>child. child \<notin> insert (last wave) visited) children). hasEntries cha c"
          using pop p c by (auto simp: bl)
      qed
      then show ?thesis using False snoc ps cs by (simp add: bfs_expand lst bl)
    qed
  qed
qed

text \<open>
  When the two maps agree (\<open>d\<close> is a parent of \<open>c\<close> exactly when \<open>c\<close> is a child of \<open>d\<close>),
  the edges are symmetric, and the contracts reachable from a contract are its connected
  component.
\<close>

definition chaConsistent :: "CHA \<Rightarrow> bool" where
  "chaConsistent cha \<longleftrightarrow>
     (\<forall>c d. (\<exists>parents. map_of (cha_parents cha) c = Some parents \<and> d \<in> set parents)
          \<longleftrightarrow> (\<exists>children. map_of (cha_children cha) d = Some children \<and> c \<in> set children))"

lemma inheritanceEdges_sym: "chaConsistent cha \<Longrightarrow> sym ((inheritanceEdges cha)\<^sup>*)"
proof (rule sym_rtrancl)
  assume "chaConsistent cha"
  then show "sym (inheritanceEdges cha)"
    unfolding sym_def inheritanceEdges_def chaConsistent_def by blast
qed

text \<open>
  C1. Whenever \<open>computeContractsNeedingInstr\<close> returns, the set it returns is exactly the set of
  the contracts reachable, along parent and child edges, from a contract whose annotation list
  holds a property annotation; and it does return when the hierarchy is complete.
\<close>

theorem computeContractsNeedingInstr_connected_component:
  "(\<forall>contracts. computeContractsNeedingInstr cha contractAnnotMap = Inr contracts \<longrightarrow>
       contracts = {c. \<exists>a annots p. (a, annots) \<in> set contractAnnotMap \<and> Property p \<in> set annots
                        \<and> (a, c) \<in> (inheritanceEdges cha)\<^sup>*})
   \<and> (chaComplete cha (annotatedContracts contractAnnotMap) \<longrightarrow>
        (\<exists>contracts. computeContractsNeedingInstr cha contractAnnotMap = Inr contracts))"
proof (intro conjI allI impI)
  fix contracts
  assume "computeContractsNeedingInstr cha contractAnnotMap = Inr contracts"
  from computeContractsNeedingInstr_sound [OF this]
  have "contracts = (inheritanceEdges cha)\<^sup>* `` set (annotatedContracts contractAnnotMap)" .
  also have "\<dots> = {c. \<exists>a annots p. (a, annots) \<in> set contractAnnotMap \<and> Property p \<in> set annots
                        \<and> (a, c) \<in> (inheritanceEdges cha)\<^sup>*}"
    unfolding Image_def using annotatedContracts_iff [of _ contractAnnotMap] by blast
  finally show "contracts = {c. \<exists>a annots p. (a, annots) \<in> set contractAnnotMap \<and> Property p \<in> set annots
                        \<and> (a, c) \<in> (inheritanceEdges cha)\<^sup>*}" .
next
  assume "chaComplete cha (annotatedContracts contractAnnotMap)"
  then show "\<exists>contracts. computeContractsNeedingInstr cha contractAnnotMap = Inr contracts"
    unfolding chaComplete_def computeContractsNeedingInstr_def
    using bfs_total [of cha "annotatedContracts contractAnnotMap" "{}"] by blast
qed

definition exCHA :: CHA where
  "exCHA = \<lparr>cha_parents = [(1, []), (2, [1]), (3, [1]), (4, [])],
            cha_children = [(1, [2, 3]), (2, []), (3, []), (4, [])]\<rparr>"

definition exAnnotMap :: "(nat \<times> AnnotationMetaData list) list" where
  "exAnnotMap =
     [(2, [Property exProperty]),
      (4, [UserFunctionDefinition \<lparr>ufd_id = 1, ufd_original = ''#define f() uint = 1;''\<rparr>])]"

lemma exCHA_run: "computeContractsNeedingInstr exCHA exAnnotMap = Inr {1, 2, 3}"
  by code_simp

lemma exCHA_complete: "chaComplete exCHA (annotatedContracts exAnnotMap)"
  by code_simp

theorem computeContractsNeedingInstr_connected_component_witness:
  "computeContractsNeedingInstr exCHA exAnnotMap = Inr {1, 2, 3}
   \<and> chaComplete exCHA (annotatedContracts exAnnotMap)
   \<and> {1, 2, 3} = {c. \<exists>a annots p. (a, annots) \<in> set exAnnotMap \<and> Property p \<in> set annots
                        \<and> (a, c) \<in> (inheritanceEdges exCHA)\<^sup>*}"
  using computeContractsNeedingInstr_connected_component [of exCHA exAnnotMap]
    exCHA_run exCHA_complete
  by blast

section \<open>Building the instrumentation worklist (\<open>instrumentFiles\<close>)\<close>

text \<open>
  Modelled from the spec: \<open>isExternallyVisible\<close> and \<open>isChangingState\<close> are utilities that are
  not among the sources at hand; the comment at their use in \<open>instrumentFiles\<close> reads
  ``they are external or public AND they modify state (not constant/pure/view)''.
\<close>

definition isExternallyVisible :: "FunctionDefinition \<Rightarrow> bool" where
  "isExternallyVisible fn \<longleftrightarrow> visibility fn = External \<or> visibility fn = Public"

definition isChangingState :: "FunctionDefinition \<Rightarrow> bool" where
  "isChangingState fn \<longleftrightarrow>
     stateMutability fn \<noteq> Constant \<and> stateMutability fn \<noteq> Pure \<and> stateMutability fn \<noteq> View"

text \<open>\<open>annot instanceof UserFunctionDefinitionMetaData\<close>.\<close>

fun isUserFunctionDefinitionMetaData :: "AnnotationMetaData \<Rightarrow> bool" where
  "isUserFunctionDefinitionMetaData (Property p) = False"
| "isUserFunctionDefinitionMetaData (UserFunctionDefinition u) = True"

text \<open>
  An entry of the worklist: the contract, the function (\<open>None\<close> for \<open>undefined\<close>, the
  contract-level entry) and the annotations.
\<close>

type_synonym WorkItem = "ContractDefinition \<times> FunctionDefinition option \<times> AnnotationMetaData list"

text \<open>
  What the first loop of \<open>instrumentFiles\<close> changes: the worklist, the type environment and
  semantic map (\<open>st_typing\<close>, written by the checkers only), \<open>ctx.annotations\<close>, the flag
  \<open>changed\<close> of the current unit and the list of changed units.
\<close>

record 'st InstrumentState =
  st_worklist :: "WorkItem list"
  st_typing :: 'st
  st_annotations :: "AnnotationMetaData list"
  st_changed :: bool
  st_changedSourceUnits :: "SourceUnit list"

fun foldE :: "('s \<Rightarrow> 'a \<Rightarrow> error + 's) \<Rightarrow> 'a list \<Rightarrow> 's \<Rightarrow> error + 's" where
  "foldE f [] s = Inr s"
| "foldE f (x # xs) s = (case f s x of Inl e \<Rightarrow> Inl e | Inr s' \<Rightarrow> foldE f xs s')"

text \<open>
  Two parameters stand for code that is not among the sources at hand.
  \<open>getAnnotationsOrDie\<close> runs the annotation extractor on a function: it returns the
  annotations or ends the run. \<open>tcOrDie\<close> runs the type checker and the semantic checker on
  an annotation in a typing context (contract, function if any, contents of the file): it
  extends the type environment and the semantic map or ends the run.
\<close>

type_synonym Extractor = "FunctionDefinition \<Rightarrow> error + AnnotationMetaData list"

type_synonym 'st Checker =
  "AnnotationMetaData \<Rightarrow> ContractDefinition \<Rightarrow> FunctionDefinition option \<Rightarrow> string \<Rightarrow> 'st
     \<Rightarrow> error + 'st"

text \<open>The \<open>if\<close> that decides whether a function with a body is interposed on.\<close>

definition interposes ::
  "bool \<Rightarrow> ContractDefinition \<Rightarrow> FunctionDefinition \<Rightarrow> AnnotationMetaData list \<Rightarrow> bool" where
  "interposes needsStateInvariantInstr contract fn annots \<longleftrightarrow>
     length annots > 0
     \<or> (needsStateInvariantInstr
         \<and> isExternallyVisible fn
         \<and> isChangingState fn
         \<and> contract_kind contract = Contract
         \<and> fun_kind fn = Function)"

text \<open>The body of the loop over \<open>contract.vFunctions\<close>.\<close>

definition instrumentFunction ::
  "Extractor \<Rightarrow> 'st Checker \<Rightarrow> string \<Rightarrow> bool \<Rightarrow> ContractDefinition
     \<Rightarrow> 'st InstrumentState \<Rightarrow> FunctionDefinition \<Rightarrow> error + 'st InstrumentState" where
  "instrumentFunction getAnnotationsOrDie tcOrDie contents needsStateInvariantInstr contract s fn =
     (if vBody fn = None then Inr s
      else
        bindE (getAnnotationsOrDie fn) (\<lambda>annots.
        bindE (foldE (\<lambda>st annot. tcOrDie annot contract (Some fn) contents st) annots (st_typing s))
          (\<lambda>st.
             if interposes needsStateInvariantInstr contract fn annots
             then Inr (s\<lparr>st_typing := st,
                          st_changed := True,
                          st_worklist := st_worklist s @ [(contract, Some fn, annots)],
                          st_annotations := st_annotations s @ annots\<rparr>)
             else Inr (s\<lparr>st_typing := st\<rparr>))))"

text \<open>The body of the loop over \<open>unit.vContracts\<close>.\<close>

definition instrumentContract ::
  "Extractor \<Rightarrow> 'st Checker \<Rightarrow> (nat \<times> AnnotationMetaData list) list \<Rightarrow> nat set \<Rightarrow> string
     \<Rightarrow> 'st InstrumentState \<Rightarrow> ContractDefinition \<Rightarrow> error + 'st InstrumentState" where
  "instrumentContract getAnnotationsOrDie tcOrDie contractInvMap contractsNeedingInstr contents s
       contract =
     (let contractAnnot = (case map_of contractInvMap (contract_id contract) of
                             None \<Rightarrow> []
                           | Some annots \<Rightarrow> annots);
          userFuns = filter isUserFunctionDefinitionMetaData contractAnnot
      in
        bindE (foldE (\<lambda>st annot. tcOrDie annot contract None contents st) contractAnnot
                 (st_typing s))
          (\<lambda>st.
             (let needsStateInvariantInstr = contract_id contract \<in> contractsNeedingInstr
              in if contract_kind contract = Interface then Inr (s\<lparr>st_typing := st\<rparr>)
                 else
                   bindE (if needsStateInvariantInstr \<or> length userFuns > 0
                          then
                            (if contract_kind contract \<in> {Library, Interface}
                             then Inl (AssertionFailed
                                         ''Shouldn't be instrumenting with contract invs'')
                             else Inr (s\<lparr>st_typing := st,
                                          st_worklist := st_worklist s @ [(contract, None, contractAnnot)],
                                          st_annotations := st_annotations s @ contractAnnot,
                                          st_changed := True\<rparr>))
                          else Inr (s\<lparr>st_typing := st\<rparr>))
                     (\<lambda>s'. foldE (instrumentFunction getAnnotationsOrDie tcOrDie contents
                                     needsStateInvariantInstr contract)
                             (vFunctions contract) s'))))"

text \<open>The body of the loop over \<open>units\<close>.\<close>

definition instrumentUnit ::
  "Extractor \<Rightarrow> 'st Checker \<Rightarrow> InstrumentationContext \<Rightarrow> (nat \<times> AnnotationMetaData list) list
     \<Rightarrow> nat set \<Rightarrow> 'st InstrumentState \<Rightarrow> SourceUnit \<Rightarrow> error + 'st InstrumentState" where
  "instrumentUnit getAnnotationsOrDie tcOrDie ctx contractInvMap contractsNeedingInstr s unit =
     (case ctx_files ctx (sourceEntryKey unit) of
        None \<Rightarrow> Inl (AssertionFailed ''Missing source for unit'')
      | Some contents \<Rightarrow>
          bindE (mapE getAnnotationsOrDie (vFreeFunctions unit)) (\<lambda>ignored.
          bindE (foldE (instrumentContract getAnnotationsOrDie tcOrDie contractInvMap
                          contractsNeedingInstr contents)
                   (vContracts unit) (s\<lparr>st_changed := False\<rparr>))
            (\<lambda>s'. Inr (if st_changed s'
                        then s'\<lparr>st_changedSourceUnits := st_changedSourceUnits s' @ [unit]\<rparr>
                        else s'))))"

text \<open>
  The first loop of \<open>instrumentFiles\<close>, which builds the worklist; \<open>typing\<close> is the new type
  environment and semantic map. The second loop hands each entry of the worklist to the
  contract instrumenter (entries without a function) or to the function instrumenter.
\<close>

definition instrumentFilesWorklist ::
  "Extractor \<Rightarrow> 'st Checker \<Rightarrow> 'st \<Rightarrow> InstrumentationContext
     \<Rightarrow> (nat \<times> AnnotationMetaData list) list \<Rightarrow> nat set \<Rightarrow> error + 'st InstrumentState" where
  "instrumentFilesWorklist getAnnotationsOrDie tcOrDie typing ctx contractInvMap
       contractsNeedingInstr =
     foldE (instrumentUnit getAnnotationsOrDie tcOrDie ctx contractInvMap contractsNeedingInstr)
       (ctx_units ctx)
       \<lparr>st_worklist = [], st_typing = typing, st_annotations = ctx_annotations ctx,
        st_changed = False, st_changedSourceUnits = []\<rparr>"

subsection \<open>The worklist that the loop builds\<close>

lemma bindE_InrE:
  assumes "bindE r f = Inr y"
  obtains x where "r = Inr x" and "f x = Inr y"
  using assms by (cases r) (simp_all add: bindE_def)

lemma foldE_Cons_Inr:
  "foldE f (x # xs) s = Inr s' \<longleftrightarrow> (\<exists>s1. f s x = Inr s1 \<and> foldE f xs s1 = Inr s')"
  by (cases "f s x") simp_all

lemma foldE_appends:
  assumes step: "\<And>s x s'. f s x = Inr s' \<Longrightarrow> w s' = w s @ g x"
  shows "foldE f xs s = Inr s' \<Longrightarrow> w s' = w s @ concat (map g xs)"
proof (induction xs arbitrary: s)
  case Nil
  then show ?case by simp
next
  case (Cons x xs)
  from Cons.prems obtain s1 where s1: "f s x = Inr s1" and rest: "foldE f xs s1 = Inr s'"
    unfolding foldE_Cons_Inr by blast
  from Cons.IH [OF rest] step [OF s1] show ?case by simp
qed

lemma foldE_invariant:
  assumes step: "\<And>s x s'. I s \<Longrightarrow> f s x = Inr s' \<Longrightarrow> I s'"
  shows "I s \<Longrightarrow> foldE f xs s = Inr s' \<Longrightarrow> I s'"
proof (induction xs arbitrary: s)
  case Nil
  then show ?case by simp
next
  case (Cons x xs)
  from Cons.prems(2) obtain s1 where s1: "f s x = Inr s1" and rest: "foldE f xs s1 = Inr s'"
    unfolding foldE_Cons_Inr by blast
  from step [OF Cons.prems(1) s1] have "I s1" .
  from Cons.IH [OF this rest] show ?case .
qed

text \<open>The annotations that the extractor returns for a function (none when it ends the run).\<close>

definition annotationsOf :: "Extractor \<Rightarrow> FunctionDefinition \<Rightarrow> AnnotationMetaData list" where
  "annotationsOf getAnnotationsOrDie fn =
     (case getAnnotationsOrDie fn of Inr annots \<Rightarrow> annots | Inl e \<Rightarrow> [])"

definition functionItems ::
  "Extractor \<Rightarrow> bool \<Rightarrow> ContractDefinition \<Rightarrow> FunctionDefinition \<Rightarrow> WorkItem list" where
  "functionItems getAnnotationsOrDie needs contract fn =
     (if vBody fn \<noteq> None
         \<and> interposes needs contract fn (annotationsOf getAnnotationsOrDie fn)
      then [(contract, Some fn, annotationsOf getAnnotationsOrDie fn)]
      else [])"

definition contractItems ::
  "Extractor \<Rightarrow> (nat \<times> AnnotationMetaData list) list \<Rightarrow> nat set \<Rightarrow> ContractDefinition
     \<Rightarrow> WorkItem list" where
  "contractItems getAnnotationsOrDie contractInvMap contractsNeedingInstr contract =
     (let contractAnnot = (case map_of contractInvMap (contract_id contract) of
                             None \<Rightarrow> []
                           | Some annots \<Rightarrow> annots);
          needs = contract_id contract \<in> contractsNeedingInstr
      in if contract_kind contract = Interface then []
         else (if needs \<or> length (filter isUserFunctionDefinitionMetaData contractAnnot) > 0
               then [(contract, None, contractAnnot)] else [])
              @ concat (map (functionItems getAnnotationsOrDie needs contract)
                          (vFunctions contract)))"

lemma instrumentFunction_worklist:
  assumes "instrumentFunction ex tc contents needs contract s fn = Inr s'"
  shows "st_worklist s' = st_worklist s @ functionItems ex needs contract fn"
proof (cases "vBody fn = None")
  case True
  with assms show ?thesis by (simp add: instrumentFunction_def functionItems_def)
next
  case False
  with assms have "bindE (ex fn) (\<lambda>annots.
        bindE (foldE (\<lambda>st annot. tc annot contract (Some fn) contents st) annots (st_typing s))
          (\<lambda>st.
             if interposes needs contract fn annots
             then Inr (s\<lparr>st_typing := st,
                          st_changed := True,
                          st_worklist := st_worklist s @ [(contract, Some fn, annots)],
                          st_annotations := st_annotations s @ annots\<rparr>)
             else Inr (s\<lparr>st_typing := st\<rparr>))) = Inr s'"
    by (simp add: instrumentFunction_def)
  then obtain annots where ex: "ex fn = Inr annots"
    and r1: "bindE (foldE (\<lambda>st annot. tc annot contract (Some fn) contents st) annots (st_typing s))
          (\<lambda>st.
             if interposes needs contract fn annots
             then Inr (s\<lparr>st_typing := st,
                          st_changed := True,
                          st_worklist := st_worklist s @ [(contract, Some fn, annots)],
                          st_annotations := st_annotations s @ annots\<rparr>)
             else Inr (s\<lparr>st_typing := st\<rparr>)) = Inr s'"
    by (rule bindE_InrE)
  from ex have annots: "annotationsOf ex fn = annots" by (simp add: annotationsOf_def)
  show ?thesis
  proof (cases "foldE (\<lambda>st annot. tc annot contract (Some fn) contents st) annots (st_typing s)")
    case (Inl e)
    with r1 show ?thesis by (simp add: bindE_def)
  next
    case (Inr st)
    show ?thesis
    proof (cases "interposes needs contract fn annots")
      case True
      with r1 Inr have "s' = s\<lparr>st_typing := st,
                          st_changed := True,
                          st_worklist := st_worklist s @ [(contract, Some fn, annots)],
                          st_annotations := st_annotations s @ annots\<rparr>"
        by (simp add: bindE_def)
      then have "st_worklist s' = st_worklist s @ [(contract, Some fn, annots)]" by simp
      with True False annots show ?thesis by (simp add: functionItems_def)
    next
      case no: False
      with r1 Inr have "s' = s\<lparr>st_typing := st\<rparr>"
        by (simp add: bindE_def)
      then have "st_worklist s' = st_worklist s" by simp
      with no False annots show ?thesis by (simp add: functionItems_def)
    qed
  qed
qed

lemma instrumentContract_Inr:
  assumes "instrumentContract ex tc contractInvMap needing contents s contract = Inr s'"
  shows "st_worklist s' = st_worklist s @ contractItems ex contractInvMap needing contract"
proof -
  let ?annot = "case map_of contractInvMap (contract_id contract) of
                  None \<Rightarrow> [] | Some annots \<Rightarrow> annots"
  let ?needs = "contract_id contract \<in> needing"
  let ?push = "?needs \<or> length (filter isUserFunctionDefinitionMetaData ?annot) > 0"
  show ?thesis
  proof (cases "contract_kind contract = Interface")
    case True
    with assms show ?thesis
      by (auto simp: instrumentContract_def contractItems_def bindE_Inr Let_def)
  next
    case False
    with assms obtain st s1 where
      s1: "(if ?push
            then (if contract_kind contract \<in> {Library, Interface}
                  then Inl (AssertionFailed ''Shouldn't be instrumenting with contract invs'')
                  else Inr (s\<lparr>st_typing := st,
                               st_worklist := st_worklist s @ [(contract, None, ?annot)],
                               st_annotations := st_annotations s @ ?annot,
                               st_changed := True\<rparr>))
            else Inr (s\<lparr>st_typing := st\<rparr>)) = Inr s1"
      and fns: "foldE (instrumentFunction ex tc contents ?needs contract) (vFunctions contract) s1
                  = Inr s'"
      by (auto simp: instrumentContract_def bindE_Inr Let_def)
    from s1 have w1: "st_worklist s1 =
        st_worklist s @ (if ?push then [(contract, None, ?annot)] else [])"
      by (auto split: if_splits)
    have "st_worklist s' = st_worklist s1
            @ concat (map (functionItems ex ?needs contract) (vFunctions contract))"
      using fns
      by (rule foldE_appends [where w = st_worklist, rotated]) (rule instrumentFunction_worklist)
    with w1 False show ?thesis
      by (simp add: contractItems_def Let_def)
  qed
qed

lemma instrumentUnit_worklist:
  assumes "instrumentUnit ex tc ctx contractInvMap needing s unit = Inr s'"
  shows "st_worklist s' =
           st_worklist s @ concat (map (contractItems ex contractInvMap needing) (vContracts unit))"
proof -
  from assms obtain contents s1 where
    fold: "foldE (instrumentContract ex tc contractInvMap needing contents) (vContracts unit)
             (s\<lparr>st_changed := False\<rparr>) = Inr s1"
    and s': "s' = (if st_changed s1
                   then s1\<lparr>st_changedSourceUnits := st_changedSourceUnits s1 @ [unit]\<rparr>
                   else s1)"
    by (auto simp: instrumentUnit_def bindE_Inr split: option.splits)
  have "st_worklist s1 = st_worklist (s\<lparr>st_changed := False\<rparr>)
          @ concat (map (contractItems ex contractInvMap needing) (vContracts unit))"
    using fold
    by (rule foldE_appends [where w = st_worklist, rotated]) (rule instrumentContract_Inr)
  with s' show ?thesis by simp
qed

lemma instrumentFilesWorklist_worklist:
  assumes "instrumentFilesWorklist ex tc typing ctx contractInvMap needing = Inr s"
  shows "st_worklist s =
           concat (map (\<lambda>unit. concat (map (contractItems ex contractInvMap needing)
                                         (vContracts unit)))
                     (ctx_units ctx))"
proof -
  have "st_worklist s =
          st_worklist \<lparr>st_worklist = [], st_typing = typing, st_annotations = ctx_annotations ctx,
                       st_changed = False, st_changedSourceUnits = []\<rparr>
          @ concat (map (\<lambda>unit. concat (map (contractItems ex contractInvMap needing)
                                         (vContracts unit)))
                     (ctx_units ctx))"
    using assms [unfolded instrumentFilesWorklist_def]
    by (rule foldE_appends [where w = st_worklist, rotated]) (rule instrumentUnit_worklist)
  then show ?thesis by simp
qed

lemma functionItems_member:
  "(c, Some f, annots) \<in> set (functionItems ex needs contract fn) \<longleftrightarrow>
     c = contract \<and> f = fn \<and> annots = annotationsOf ex fn \<and> vBody fn \<noteq> None
     \<and> interposes needs contract fn (annotationsOf ex fn)"
  by (auto simp: functionItems_def)

lemma contractItems_function_member:
  "(c, Some f, annots) \<in> set (contractItems ex contractInvMap needing contract) \<longleftrightarrow>
     c = contract \<and> contract_kind contract \<noteq> Interface \<and> f \<in> set (vFunctions contract)
     \<and> annots = annotationsOf ex f \<and> vBody f \<noteq> None
     \<and> interposes (contract_id contract \<in> needing) contract f (annotationsOf ex f)"
  by (auto simp: contractItems_def Let_def functionItems_member)

lemma worklist_function_member:
  assumes "instrumentFilesWorklist ex tc typing ctx contractInvMap needing = Inr s"
  shows "(c, Some f, annots) \<in> set (st_worklist s) \<longleftrightarrow>
           (\<exists>unit \<in> set (ctx_units ctx). c \<in> set (vContracts unit))
           \<and> contract_kind c \<noteq> Interface \<and> f \<in> set (vFunctions c)
           \<and> annots = annotationsOf ex f \<and> vBody f \<noteq> None
           \<and> interposes (contract_id c \<in> needing) c f (annotationsOf ex f)"
  unfolding instrumentFilesWorklist_worklist [OF assms]
  by (auto simp: contractItems_function_member)

subsection \<open>Which functions are interposed on\<close>

text \<open>An example: a token contract that needs state-invariant instrumentation.\<close>

definition exTransfer :: FunctionDefinition where
  "exTransfer = \<lparr>fun_id = 10, fun_name = ''transfer'', fun_kind = Function,
     visibility = Public, stateMutability = NonPayable, vBody = Some 20\<rparr>"

definition exBalanceOf :: FunctionDefinition where
  "exBalanceOf = \<lparr>fun_id = 11, fun_name = ''balanceOf'', fun_kind = Function,
     visibility = Public, stateMutability = View, vBody = Some 21\<rparr>"

definition exToken :: ContractDefinition where
  "exToken = \<lparr>contract_id = 1, contract_name = ''Token'', contract_kind = Contract,
     vLinearizedBaseContracts = [1], vFunctions = [exTransfer, exBalanceOf],
     vScope_sourceEntryKey = ''a.sol'', vScope_sourceListIndex = 0\<rparr>"

definition exTokenUnit :: SourceUnit where
  "exTokenUnit = \<lparr>unit_id = 0, absolutePath = ''a.sol'', sourceEntryKey = ''a.sol'',
     vImportDirectives = [], vFreeFunctions = [], vContracts = [exToken], unit_nodes = []\<rparr>"

definition exTokenContext :: InstrumentationContext where
  "exTokenContext = \<lparr>ctx_units = [exTokenUnit], ctx_files = [''a.sol'' \<mapsto> ''contract Token { }''],
     ctx_outputMode = Files, ctx_utilsUnit = exUtilsUnit, ctx_annotations = [],
     ctx_debugEventDefs = Map.empty, ctx_evaluationStatements = Map.empty,
     ctx_instrumetnedCheck = [], ctx_generalInstrumentationNodes = []\<rparr>"

definition exTokenState :: "unit InstrumentState" where
  "exTokenState = \<lparr>st_worklist =
       [(exToken, None, [Property exProperty]), (exToken, Some exTransfer, [])],
     st_typing = (), st_annotations = [Property exProperty], st_changed = True,
     st_changedSourceUnits = [exTokenUnit]\<rparr>"

lemma exTokenState_run:
  "instrumentFilesWorklist (\<lambda>fn. Inr []) (\<lambda>annot contract fn contents st. Inr st) ()
     exTokenContext [(1, [Property exProperty])] {1} = Inr exTokenState"
  by code_simp

text \<open>
  C6. In a run of the loop that completes, a function of a contract of the units is put on
  the worklist if and only if it has a body and either carries at least one annotation, or
  its contract needs state-invariant instrumentation and is of kind \<open>contract\<close> and the
  function is externally visible, changes state and is a plain function (not a constructor,
  fallback or receive function). A function without a body is never put on the worklist.
  The functions of an interface have no body (the compiler rejects an implementation in an
  interface); the loop skips an interface as a whole.
\<close>

theorem function_interposed_iff:
  assumes "instrumentFilesWorklist getAnnotationsOrDie tcOrDie typing ctx contractInvMap
             contractsNeedingInstr = Inr s"
    and "unit \<in> set (ctx_units ctx)"
    and "contract \<in> set (vContracts unit)"
    and "fn \<in> set (vFunctions contract)"
    and "contract_kind contract = Interface \<longrightarrow> vBody fn = None"
  shows "(\<exists>annots. (contract, Some fn, annots) \<in> set (st_worklist s)) \<longleftrightarrow>
           vBody fn \<noteq> None
           \<and> ((\<exists>annots. getAnnotationsOrDie fn = Inr annots \<and> annots \<noteq> [])
               \<or> (contract_id contract \<in> contractsNeedingInstr
                   \<and> isExternallyVisible fn
                   \<and> isChangingState fn
                   \<and> contract_kind contract = Contract
                   \<and> fun_kind fn = Function))"
proof -
  have annotated: "length (annotationsOf getAnnotationsOrDie fn) > 0 \<longleftrightarrow>
      (\<exists>annots. getAnnotationsOrDie fn = Inr annots \<and> annots \<noteq> [])"
    by (cases "getAnnotationsOrDie fn") (simp_all add: annotationsOf_def)
  have "(\<exists>annots. (contract, Some fn, annots) \<in> set (st_worklist s)) \<longleftrightarrow>
          contract_kind contract \<noteq> Interface \<and> vBody fn \<noteq> None
          \<and> interposes (contract_id contract \<in> contractsNeedingInstr) contract fn
               (annotationsOf getAnnotationsOrDie fn)"
    unfolding worklist_function_member [OF assms(1)] using assms(2-4) by blast
  also have "\<dots> \<longleftrightarrow> vBody fn \<noteq> None
          \<and> interposes (contract_id contract \<in> contractsNeedingInstr) contract fn
               (annotationsOf getAnnotationsOrDie fn)"
    using assms(5) by auto
  finally show ?thesis
    unfolding interposes_def annotated .
qed

theorem function_interposed_iff_witness:
  "instrumentFilesWorklist (\<lambda>fn. Inr []) (\<lambda>annot contract fn contents st. Inr st) ()
     exTokenContext [(1, [Property exProperty])] {1} = Inr exTokenState
   \<and> (\<exists>annots. (exToken, Some exTransfer, annots) \<in> set (st_worklist exTokenState))
   \<and> \<not> (\<exists>annots. (exToken, Some exBalanceOf, annots) \<in> set (st_worklist exTokenState))"
proof -
  have u: "exTokenUnit \<in> set (ctx_units exTokenContext)"
    by (simp add: exTokenContext_def)
  have c: "exToken \<in> set (vContracts exTokenUnit)"
    by (simp add: exTokenUnit_def)
  have f1: "exTransfer \<in> set (vFunctions exToken)" and f2: "exBalanceOf \<in> set (vFunctions exToken)"
    by (simp_all add: exToken_def)
  have k: "contract_kind exToken = Contract"
    by (simp add: exToken_def)
  have i1: "contract_kind exToken = Interface \<longrightarrow> vBody exTransfer = None"
    and i2: "contract_kind exToken = Interface \<longrightarrow> vBody exBalanceOf = None"
    by (simp_all add: k)
  have t: "vBody exTransfer \<noteq> None \<and> isExternallyVisible exTransfer \<and> isChangingState exTransfer
      \<and> fun_kind exTransfer = Function"
    by (simp add: exTransfer_def isExternallyVisible_def isChangingState_def)
  have b: "\<not> isChangingState exBalanceOf"
    by (simp add: exBalanceOf_def isChangingState_def)
  have n: "contract_id exToken \<in> {1}"
    by (simp add: exToken_def)
  show ?thesis
    using function_interposed_iff [OF exTokenState_run u c f1 i1]
      function_interposed_iff [OF exTokenState_run u c f2 i2]
      exTokenState_run k t b n
    by simp
qed

subsection \<open>Contract-level entries\<close>





















section \<open>Topological sorting of the units (\<open>topoSort\<close>)\<close>

text \<open>\<open>Map.prototype.set\<close> on a map listed in insertion order.\<close>

fun mapSet :: "'k \<Rightarrow> 'v \<Rightarrow> ('k \<times> 'v) list \<Rightarrow> ('k \<times> 'v) list" where
  "mapSet k v [] = [(k, v)]"
| "mapSet k v ((k', v') # m) = (if k' = k then (k, v) # m else (k', v') # mapSet k v m)"

text \<open>
  \<open>new Map(units.map((unit) => [unit.absolutePath, unit]))\<close>: of two units with the same path
  the later one is kept.
\<close>

definition pathMap :: "SourceUnit list \<Rightarrow> string \<rightharpoonup> SourceUnit" where
  "pathMap units = map_of (rev (map (\<lambda>unit. (absolutePath unit, unit)) units))"

text \<open>
  \<open>importersM\<close> maps a unit (by its identifier) to the set of the units that import it, listed
  in insertion order; \<open>getOrInit(key, importersM, new Set())\<close> reads the set of a key, the empty
  set when the map has none.
\<close>

definition importersOf :: "(nat \<rightharpoonup> SourceUnit list) \<Rightarrow> nat \<Rightarrow> SourceUnit list" where
  "importersOf importersM key = (case importersM key of None \<Rightarrow> [] | Some importers \<Rightarrow> importers)"

text \<open>
  The body of the loop over \<open>unit.vImportDirectives\<close>. The set of importers is stored under the
  importee found by path and under \<open>imp.vSourceUnit\<close>; these are the same object when the
  directive refers to a unit of the list.
\<close>

definition addImport ::
  "(string \<rightharpoonup> SourceUnit) \<Rightarrow> SourceUnit \<Rightarrow> SourceUnit list \<times> (nat \<rightharpoonup> SourceUnit list)
     \<Rightarrow> ImportDirective \<Rightarrow> error + SourceUnit list \<times> (nat \<rightharpoonup> SourceUnit list)" where
  "addImport pathM unit s imp =
     (case s of (importees, importersM) \<Rightarrow>
        (case pathM (vSourceUnit_absolutePath imp) of
           None \<Rightarrow> Inl (AssertionFailed [])
         | Some importee \<Rightarrow>
             (let importers = setAdd (importersOf importersM (unit_id importee)) unit
              in Inr (setAdd importees importee,
                      importersM(unit_id importee \<mapsto> importers,
                                 vSourceUnit_id imp \<mapsto> importers)))))"

text \<open>The body of the first loop over \<open>units\<close>; \<open>nImportsM\<close> is listed in insertion order.\<close>

definition registerUnit ::
  "(string \<rightharpoonup> SourceUnit) \<Rightarrow> (nat \<times> int) list \<times> (nat \<rightharpoonup> SourceUnit list) \<Rightarrow> SourceUnit
     \<Rightarrow> error + (nat \<times> int) list \<times> (nat \<rightharpoonup> SourceUnit list)" where
  "registerUnit pathM s unit =
     (case s of (nImportsM, importersM) \<Rightarrow>
        bindE (foldE (addImport pathM unit) (vImportDirectives unit) ([], importersM))
          (\<lambda>(importees, importersM').
             Inr (mapSet (unit_id unit) (int (length importees)) nImportsM, importersM')))"

text \<open>
  The body of the loop over the importers of \<open>cur\<close>. When \<open>nImportsM\<close> has no entry for the
  importer, \<open>undefined - 1\<close> is \<open>NaN\<close> and the assertion \<open>newNImports >= 0\<close> fails.
\<close>

definition decrementImporter ::
  "(nat \<times> int) list \<times> SourceUnit list \<Rightarrow> SourceUnit
     \<Rightarrow> error + (nat \<times> int) list \<times> SourceUnit list" where
  "decrementImporter s importer =
     (case s of (nImportsM, q) \<Rightarrow>
        (case map_of nImportsM (unit_id importer) of
           None \<Rightarrow> Inl (AssertionFailed [])
         | Some n \<Rightarrow>
             (let newNImports = n - 1
              in if \<not> newNImports \<ge> 0 then Inl (AssertionFailed [])
                 else Inr (mapSet (unit_id importer) newNImports nImportsM,
                           if newNImports = 0 then q @ [importer] else q))))"

text \<open>
  The sum of the counts of \<open>nImportsM\<close>: every step of the loop over the importers lowers it by
  one and lengthens the queue by at most one, so the \<open>while\<close> loop ends.
\<close>

definition total :: "(nat \<times> int) list \<Rightarrow> nat" where
  "total nImportsM = sum_list (map (\<lambda>(k, n). nat n) nImportsM)"

lemma total_mapSet:
  "map_of m k = Some n \<Longrightarrow> 1 \<le> n \<Longrightarrow> total (mapSet k (n - 1) m) + 1 = total m"
proof (induction m)
  case Nil
  then show ?case by simp
next
  case (Cons p m)
  obtain k' v' where p: "p = (k', v')" by (cases p)
  show ?case
  proof (cases "k' = k")
    case True
    with Cons.prems p have "v' = n" by simp
    with True p Cons.prems(2) show ?thesis by (simp add: total_def nat_diff_distrib)
  next
    case False
    with Cons.prems p have "map_of m k = Some n" by simp
    from Cons.IH [OF this Cons.prems(2)] False p show ?thesis by (simp add: total_def)
  qed
qed

lemma decrementImporter_measure:
  assumes "decrementImporter (m, q) u = Inr (m', q')"
  shows "2 * total m' + length q' < 2 * total m + length q"
proof -
  from assms obtain n where n: "map_of m (unit_id u) = Some n" and ge: "1 \<le> n"
    and m': "m' = mapSet (unit_id u) (n - 1) m"
    and q': "q' = (if n - 1 = 0 then q @ [u] else q)"
    by (auto simp: decrementImporter_def Let_def split: option.splits if_splits)
  from total_mapSet [OF n ge] m' have "total m' + 1 = total m" by simp
  with q' show ?thesis by (auto split: if_splits)
qed

lemma foldE_decrementImporter_measure:
  "foldE decrementImporter us (m, q) = Inr (m', q') \<Longrightarrow>
     2 * total m' + length q' \<le> 2 * total m + length q"
proof (induction us arbitrary: m q)
  case Nil
  then show ?case by simp
next
  case (Cons u us)
  from Cons.prems obtain m1 q1 where s1: "decrementImporter (m, q) u = Inr (m1, q1)"
    and rest: "foldE decrementImporter us (m1, q1) = Inr (m', q')"
    by (cases "decrementImporter (m, q) u") auto
  from Cons.IH [OF rest] decrementImporter_measure [OF s1] show ?case by simp
qed

text \<open>The \<open>while\<close> loop: \<open>q.shift()\<close> takes the first unit, \<open>q.push\<close> appends.\<close>

function kahn ::
  "(nat \<rightharpoonup> SourceUnit list) \<Rightarrow> (nat \<times> int) list \<Rightarrow> SourceUnit list \<Rightarrow> SourceUnit list
     \<Rightarrow> error + SourceUnit list" where
  "kahn importersM nImportsM q sortedUnits =
     (case q of
        [] \<Rightarrow> Inr sortedUnits
      | cur # rest \<Rightarrow>
          (case foldE decrementImporter (importersOf importersM (unit_id cur)) (nImportsM, rest) of
             Inl e \<Rightarrow> Inl e
           | Inr (nImportsM', q') \<Rightarrow> kahn importersM nImportsM' q' (sortedUnits @ [cur])))"
  by pat_completeness auto
termination
proof (relation "measure (\<lambda>(importersM, nImportsM, q, sortedUnits). 2 * total nImportsM + length q)",
    goal_cases)
  case 1
  show ?case by simp
next
  case (2 importersM nImportsM q sortedUnits cur rest s nImportsM' q')
  then have "foldE decrementImporter (importersOf importersM (unit_id cur)) (nImportsM, rest)
               = Inr (nImportsM', q')"
    by simp
  from foldE_decrementImporter_measure [OF this] 2 show ?case by simp
qed

declare kahn.simps [simp del]

definition topoSortMessage :: "nat \<Rightarrow> nat \<Rightarrow> string" where
  "topoSortMessage n m =
     ''Topo sort didn't preserve list: sorted - '' @ showNat n @ '' original - '' @ showNat m"

definition topoSort :: "SourceUnit list \<Rightarrow> error + SourceUnit list" where
  "topoSort units =
     bindE (foldE (registerUnit (pathMap units)) units ([], Map.empty))
       (\<lambda>(nImportsM, importersM).
          (let q = filter (\<lambda>unit. map_of nImportsM (unit_id unit) = Some 0) units
           in bindE (kahn importersM nImportsM q [])
                (\<lambda>sortedUnits.
                   if length sortedUnits = length units then Inr sortedUnits
                   else Inl (AssertionFailed (topoSortMessage (length sortedUnits) (length units))))))"


subsection \<open>The import graph\<close>

text \<open>
  A unit imports another unit of the list when one of its import directives names the path
  of that unit. The list of units is well formed when the units are distinct objects with
  distinct paths and every import directive refers to a unit of the list.
\<close>

definition importGraph :: "SourceUnit list \<Rightarrow> (SourceUnit \<times> SourceUnit) set" where
  "importGraph units =
     {(unit, importee). unit \<in> set units \<and> importee \<in> set units
        \<and> (\<exists>imp \<in> set (vImportDirectives unit).
              vSourceUnit_absolutePath imp = absolutePath importee)}"

definition wellFormedUnits :: "SourceUnit list \<Rightarrow> bool" where
  "wellFormedUnits units \<longleftrightarrow>
     distinct (map unit_id units)
     \<and> distinct (map absolutePath units)
     \<and> (\<forall>unit \<in> set units. \<forall>imp \<in> set (vImportDirectives unit).
          \<exists>importee \<in> set units.
            unit_id importee = vSourceUnit_id imp
            \<and> absolutePath importee = vSourceUnit_absolutePath imp)"

subsection \<open>The maps that the first loop builds\<close>

lemma map_of_mapSet: "map_of (mapSet k v m) k' = (if k' = k then Some v else map_of m k')"
  by (induction m) auto

lemma pathMap_Some:
  assumes "distinct (map absolutePath units)" and "v \<in> set units"
  shows "pathMap units (absolutePath v) = Some v"
proof -
  have "distinct (map fst (rev (map (\<lambda>unit. (absolutePath unit, unit)) units)))"
    using assms(1) by (simp add: rev_map [symmetric] comp_def)
  moreover have "(absolutePath v, v) \<in> set (rev (map (\<lambda>unit. (absolutePath unit, unit)) units))"
    using assms(2) by auto
  ultimately show ?thesis
    unfolding pathMap_def by (rule map_of_is_SomeI)
qed

lemma pathMap_SomeD:
  assumes "pathMap units p = Some v"
  shows "v \<in> set units \<and> absolutePath v = p"
proof -
  from assms have "(p, v) \<in> set (rev (map (\<lambda>unit. (absolutePath unit, unit)) units))"
    unfolding pathMap_def by (rule map_of_SomeD)
  then show ?thesis by auto
qed

definition importeesOf :: "(string \<rightharpoonup> SourceUnit) \<Rightarrow> ImportDirective list \<Rightarrow> SourceUnit set" where
  "importeesOf pathM imps = {v. \<exists>imp \<in> set imps. pathM (vSourceUnit_absolutePath imp) = Some v}"

lemma importeesOf_Nil: "importeesOf pathM [] = {}"
  by (simp add: importeesOf_def)

lemma importeesOf_Cons:
  "pathM (vSourceUnit_absolutePath imp) = Some v \<Longrightarrow>
     importeesOf pathM (imp # imps) = insert v (importeesOf pathM imps)"
  by (auto simp: importeesOf_def)

lemma setAdd_set: "set (setAdd s x) = insert x (set s)"
  by (auto simp: setAdd_def)

lemma setAdd_distinct: "distinct s \<Longrightarrow> distinct (setAdd s x)"
  by (simp add: setAdd_def)

lemma setAdd_idem: "setAdd (setAdd s x) x = setAdd s x"
  by (simp add: setAdd_def)

lemma foldE_addImport:
  assumes "\<forall>imp \<in> set imps. \<exists>v. pathM (vSourceUnit_absolutePath imp) = Some v
             \<and> unit_id v = vSourceUnit_id imp"
  shows "\<exists>es' iM'. foldE (addImport pathM u) imps (es, iM) = Inr (es', iM')
           \<and> set es' = set es \<union> importeesOf pathM imps
           \<and> (distinct es \<longrightarrow> distinct es')
           \<and> (\<forall>k. importersOf iM' k =
                  (if k \<in> unit_id ` importeesOf pathM imps then setAdd (importersOf iM k) u
                   else importersOf iM k))"
  using assms
proof (induction imps arbitrary: es iM)
  case Nil
  show ?case by (simp add: importeesOf_Nil)
next
  case (Cons imp imps)
  from Cons.prems obtain v where v: "pathM (vSourceUnit_absolutePath imp) = Some v"
    and id: "unit_id v = vSourceUnit_id imp"
    by auto
  note ic = importeesOf_Cons [of pathM imp v imps, OF v]
  let ?S = "setAdd (importersOf iM (unit_id v)) u"
  let ?iM1 = "iM(unit_id v \<mapsto> ?S)"
  have step: "addImport pathM u (es, iM) imp = Inr (setAdd es v, ?iM1)"
    using v id by (simp add: addImport_def Let_def)
  from Cons.prems have rest: "\<forall>imp \<in> set imps. \<exists>v. pathM (vSourceUnit_absolutePath imp) = Some v
             \<and> unit_id v = vSourceUnit_id imp"
    by simp
  from Cons.IH [OF rest, of "setAdd es v" ?iM1] obtain es' iM' where
    run: "foldE (addImport pathM u) imps (setAdd es v, ?iM1) = Inr (es', iM')"
    and es': "set es' = set (setAdd es v) \<union> importeesOf pathM imps"
    and dist: "distinct (setAdd es v) \<longrightarrow> distinct es'"
    and iM': "\<forall>k. importersOf iM' k =
                  (if k \<in> unit_id ` importeesOf pathM imps then setAdd (importersOf ?iM1 k) u
                   else importersOf ?iM1 k)"
    by blast
  have a: "foldE (addImport pathM u) (imp # imps) (es, iM) = Inr (es', iM')"
    using step run by simp
  have b: "set es' = set es \<union> importeesOf pathM (imp # imps)"
    using es' by (simp add: ic setAdd_set)
  have c: "distinct es \<longrightarrow> distinct es'"
    using dist by (simp add: setAdd_distinct)
  have d: "\<forall>k. importersOf iM' k =
                  (if k \<in> unit_id ` importeesOf pathM (imp # imps) then setAdd (importersOf iM k) u
                   else importersOf iM k)"
  proof
    fix k
    show "importersOf iM' k =
                  (if k \<in> unit_id ` importeesOf pathM (imp # imps) then setAdd (importersOf iM k) u
                   else importersOf iM k)"
    proof (cases "k = unit_id v")
      case True
      have "importersOf ?iM1 k = ?S" using True by (simp add: importersOf_def)
      with iM' True show ?thesis
        by (simp add: ic setAdd_idem)
    next
      case False
      then have "importersOf ?iM1 k = importersOf iM k" by (simp add: importersOf_def)
      with iM' False show ?thesis
        by (simp add: ic)
    qed
  qed
  from a b c d show ?case by blast
qed


lemma registerUnit_step:
  assumes "\<forall>imp \<in> set (vImportDirectives u). \<exists>v. pathM (vSourceUnit_absolutePath imp) = Some v
             \<and> unit_id v = vSourceUnit_id imp"
  shows "\<exists>iM'. registerUnit pathM (nM, iM) u
             = Inr (mapSet (unit_id u) (int (card (importeesOf pathM (vImportDirectives u)))) nM, iM')
           \<and> (\<forall>k. importersOf iM' k =
                  (if k \<in> unit_id ` importeesOf pathM (vImportDirectives u)
                   then setAdd (importersOf iM k) u else importersOf iM k))"
proof -
  from foldE_addImport [OF assms, of u "[]" iM] obtain es' iM' where
    run: "foldE (addImport pathM u) (vImportDirectives u) ([], iM) = Inr (es', iM')"
    and es': "set es' = importeesOf pathM (vImportDirectives u)"
    and dist: "distinct es'"
    and iM': "\<forall>k. importersOf iM' k =
                  (if k \<in> unit_id ` importeesOf pathM (vImportDirectives u)
                   then setAdd (importersOf iM k) u else importersOf iM k)"
    by auto
  from dist es' have "length es' = card (importeesOf pathM (vImportDirectives u))"
    using distinct_card by fastforce
  with run have "registerUnit pathM (nM, iM) u
             = Inr (mapSet (unit_id u) (int (card (importeesOf pathM (vImportDirectives u)))) nM, iM')"
    by (simp add: registerUnit_def bindE_def)
  with iM' show ?thesis by blast
qed

lemma foldE_registerUnit:
  assumes "\<forall>unit \<in> set us. \<forall>imp \<in> set (vImportDirectives unit).
             \<exists>v. pathM (vSourceUnit_absolutePath imp) = Some v \<and> unit_id v = vSourceUnit_id imp"
    and "distinct (map unit_id us)"
  shows "\<exists>nM' iM'. foldE (registerUnit pathM) us (nM, iM) = Inr (nM', iM')
      \<and> (\<forall>u \<in> set us. map_of nM' (unit_id u)
                          = Some (int (card (importeesOf pathM (vImportDirectives u)))))
      \<and> (\<forall>k. k \<notin> unit_id ` set us \<longrightarrow> map_of nM' k = map_of nM k)
      \<and> (\<forall>k. set (importersOf iM' k) = set (importersOf iM k)
                  \<union> {u \<in> set us. k \<in> unit_id ` importeesOf pathM (vImportDirectives u)})
      \<and> (\<forall>k. distinct (importersOf iM k) \<longrightarrow> distinct (importersOf iM' k))"
  using assms
proof (induction us arbitrary: nM iM)
  case Nil
  show ?case by simp
next
  case (Cons u us)
  from Cons.prems(1) have uok: "\<forall>imp \<in> set (vImportDirectives u).
      \<exists>v. pathM (vSourceUnit_absolutePath imp) = Some v \<and> unit_id v = vSourceUnit_id imp"
    and rok: "\<forall>unit \<in> set us. \<forall>imp \<in> set (vImportDirectives unit).
             \<exists>v. pathM (vSourceUnit_absolutePath imp) = Some v \<and> unit_id v = vSourceUnit_id imp"
    by simp_all
  from Cons.prems(2) have fresh: "unit_id u \<notin> unit_id ` set us" and rd: "distinct (map unit_id us)"
    by simp_all
  let ?n = "int (card (importeesOf pathM (vImportDirectives u)))"
  let ?nM1 = "mapSet (unit_id u) ?n nM"
  from registerUnit_step [OF uok, of nM iM] obtain iM1 where
    step: "registerUnit pathM (nM, iM) u = Inr (?nM1, iM1)"
    and iM1: "\<forall>k. importersOf iM1 k =
                  (if k \<in> unit_id ` importeesOf pathM (vImportDirectives u)
                   then setAdd (importersOf iM k) u else importersOf iM k)"
    by blast
  from Cons.IH [OF rok rd, of ?nM1 iM1] obtain nM' iM' where
    run: "foldE (registerUnit pathM) us (?nM1, iM1) = Inr (nM', iM')"
    and cnt: "\<forall>u \<in> set us. map_of nM' (unit_id u)
                          = Some (int (card (importeesOf pathM (vImportDirectives u))))"
    and other: "\<forall>k. k \<notin> unit_id ` set us \<longrightarrow> map_of nM' k = map_of ?nM1 k"
    and imps: "\<forall>k. set (importersOf iM' k) = set (importersOf iM1 k)
                  \<union> {u \<in> set us. k \<in> unit_id ` importeesOf pathM (vImportDirectives u)}"
    and dist: "\<forall>k. distinct (importersOf iM1 k) \<longrightarrow> distinct (importersOf iM' k)"
    by blast
  have a: "foldE (registerUnit pathM) (u # us) (nM, iM) = Inr (nM', iM')"
    using step run by simp
  have b: "\<forall>w \<in> set (u # us). map_of nM' (unit_id w)
                          = Some (int (card (importeesOf pathM (vImportDirectives w))))"
  proof
    fix w assume "w \<in> set (u # us)"
    then consider "w \<in> set us" | "w = u" "w \<notin> set us" by auto
    then show "map_of nM' (unit_id w)
                 = Some (int (card (importeesOf pathM (vImportDirectives w))))"
    proof cases
      case 1
      with cnt show ?thesis by blast
    next
      case 2
      with fresh other have "map_of nM' (unit_id w) = map_of ?nM1 (unit_id u)" by simp
      with 2 show ?thesis by (simp add: map_of_mapSet)
    qed
  qed
  have c: "\<forall>k. k \<notin> unit_id ` set (u # us) \<longrightarrow> map_of nM' k = map_of nM k"
    using other by (simp add: map_of_mapSet)
  have d: "\<forall>k. set (importersOf iM' k) = set (importersOf iM k)
                  \<union> {w \<in> set (u # us). k \<in> unit_id ` importeesOf pathM (vImportDirectives w)}"
  proof
    fix k
    have "set (importersOf iM1 k) = set (importersOf iM k)
            \<union> (if k \<in> unit_id ` importeesOf pathM (vImportDirectives u) then {u} else {})"
      using iM1 by (simp add: setAdd_set)
    with imps show "set (importersOf iM' k) = set (importersOf iM k)
                  \<union> {w \<in> set (u # us). k \<in> unit_id ` importeesOf pathM (vImportDirectives w)}"
      by auto
  qed
  have e: "\<forall>k. distinct (importersOf iM k) \<longrightarrow> distinct (importersOf iM' k)"
    using dist iM1 by (simp add: setAdd_distinct)
  from a b c d e show ?case by blast
qed

lemma importeesOf_importGraph:
  assumes "wellFormedUnits units" and "u \<in> set units"
  shows "importeesOf (pathMap units) (vImportDirectives u) = {v. (u, v) \<in> importGraph units}"
proof -
  from assms(1) have dp: "distinct (map absolutePath units)"
    by (simp add: wellFormedUnits_def)
  show ?thesis
  proof (intro set_eqI iffI)
    fix v assume "v \<in> importeesOf (pathMap units) (vImportDirectives u)"
    then obtain imp where imp: "imp \<in> set (vImportDirectives u)"
      and "pathMap units (vSourceUnit_absolutePath imp) = Some v"
      by (auto simp: importeesOf_def)
    from pathMap_SomeD [OF this(2)] imp assms(2) show "v \<in> {v. (u, v) \<in> importGraph units}"
      by (auto simp: importGraph_def)
  next
    fix v assume "v \<in> {v. (u, v) \<in> importGraph units}"
    then obtain imp where v: "v \<in> set units" and imp: "imp \<in> set (vImportDirectives u)"
      and p: "vSourceUnit_absolutePath imp = absolutePath v"
      by (auto simp: importGraph_def)
    from pathMap_Some [OF dp v] p have "pathMap units (vSourceUnit_absolutePath imp) = Some v"
      by simp
    with imp show "v \<in> importeesOf (pathMap units) (vImportDirectives u)"
      by (auto simp: importeesOf_def)
  qed
qed

lemma phase1:
  assumes wf: "wellFormedUnits units"
  shows "\<exists>nM iM. foldE (registerUnit (pathMap units)) units ([], Map.empty) = Inr (nM, iM)
      \<and> (\<forall>u \<in> set units. map_of nM (unit_id u)
                             = Some (int (card {v. (u, v) \<in> importGraph units})))
      \<and> (\<forall>v \<in> set units. set (importersOf iM (unit_id v)) = {u. (u, v) \<in> importGraph units}
                             \<and> distinct (importersOf iM (unit_id v)))"
proof -
  from wf have di: "distinct (map unit_id units)" and dp: "distinct (map absolutePath units)"
    and closed: "\<forall>unit \<in> set units. \<forall>imp \<in> set (vImportDirectives unit).
          \<exists>importee \<in> set units.
            unit_id importee = vSourceUnit_id imp
            \<and> absolutePath importee = vSourceUnit_absolutePath imp"
    by (simp_all add: wellFormedUnits_def)
  have ok: "\<forall>unit \<in> set units. \<forall>imp \<in> set (vImportDirectives unit).
             \<exists>v. pathMap units (vSourceUnit_absolutePath imp) = Some v
                \<and> unit_id v = vSourceUnit_id imp"
  proof (intro ballI)
    fix unit imp assume "unit \<in> set units" "imp \<in> set (vImportDirectives unit)"
    with closed obtain importee where i: "importee \<in> set units"
      and id: "unit_id importee = vSourceUnit_id imp"
      and p: "absolutePath importee = vSourceUnit_absolutePath imp"
      by blast
    from pathMap_Some [OF dp i] p id
    show "\<exists>v. pathMap units (vSourceUnit_absolutePath imp) = Some v
                \<and> unit_id v = vSourceUnit_id imp"
      by auto
  qed
  from foldE_registerUnit [OF ok di, of "[]" Map.empty] obtain nM iM where
    run: "foldE (registerUnit (pathMap units)) units ([], Map.empty) = Inr (nM, iM)"
    and cnt: "\<forall>u \<in> set units. map_of nM (unit_id u)
                = Some (int (card (importeesOf (pathMap units) (vImportDirectives u))))"
    and imps: "\<forall>k. set (importersOf iM k) = set (importersOf Map.empty k)
                  \<union> {u \<in> set units. k \<in> unit_id ` importeesOf (pathMap units) (vImportDirectives u)}"
    and dist: "\<forall>k. distinct (importersOf Map.empty k) \<longrightarrow> distinct (importersOf iM k)"
    by blast
  have a: "\<forall>u \<in> set units. map_of nM (unit_id u)
                             = Some (int (card {v. (u, v) \<in> importGraph units}))"
    using cnt importeesOf_importGraph [OF wf] by simp
  have inj: "inj_on unit_id (set units)"
    using di by (simp add: distinct_map)
  have b: "\<forall>v \<in> set units. set (importersOf iM (unit_id v)) = {u. (u, v) \<in> importGraph units}
                             \<and> distinct (importersOf iM (unit_id v))"
  proof
    fix v assume v: "v \<in> set units"
    have "set (importersOf iM (unit_id v))
            = {u \<in> set units. unit_id v \<in> unit_id ` {w. (u, w) \<in> importGraph units}}"
      using imps importeesOf_importGraph [OF wf] by (auto simp: importersOf_def)
    also have "\<dots> = {u. (u, v) \<in> importGraph units}"
    proof (intro set_eqI iffI)
      fix u assume "u \<in> {u \<in> set units. unit_id v \<in> unit_id ` {w. (u, w) \<in> importGraph units}}"
      then obtain w where u: "u \<in> set units" and w: "(u, w) \<in> importGraph units"
        and eq: "unit_id v = unit_id w" by auto
      from w have "w \<in> set units" by (simp add: importGraph_def)
      with inj v eq have "v = w" by (auto dest: inj_onD)
      with w show "u \<in> {u. (u, v) \<in> importGraph units}" by simp
    next
      fix u assume "u \<in> {u. (u, v) \<in> importGraph units}"
      then show "u \<in> {u \<in> set units. unit_id v \<in> unit_id ` {w. (u, w) \<in> importGraph units}}"
        by (auto simp: importGraph_def)
    qed
    finally have "set (importersOf iM (unit_id v)) = {u. (u, v) \<in> importGraph units}" .
    moreover have "distinct (importersOf iM (unit_id v))"
      using dist by (simp add: importersOf_def)
    ultimately show "set (importersOf iM (unit_id v)) = {u. (u, v) \<in> importGraph units}
                             \<and> distinct (importersOf iM (unit_id v))" by blast
  qed
  from run a b show ?thesis by blast
qed


subsection \<open>The invariant of the queue loop\<close>

lemma foldE_decrementImporter:
  assumes "distinct (map unit_id us)"
    and "\<forall>u \<in> set us. \<exists>n. map_of nM (unit_id u) = Some n \<and> 1 \<le> n"
  shows "\<exists>nM'. foldE decrementImporter us (nM, q)
                 = Inr (nM', q @ filter (\<lambda>u. map_of nM (unit_id u) = Some 1) us)
           \<and> (\<forall>k. map_of nM' k =
                  (if k \<in> unit_id ` set us then map_option (\<lambda>n. n - 1) (map_of nM k)
                   else map_of nM k))"
  using assms
proof (induction us arbitrary: nM q)
  case Nil
  show ?case by simp
next
  case (Cons u us)
  from Cons.prems(2) obtain n where n: "map_of nM (unit_id u) = Some n" and ge: "1 \<le> n"
    by auto
  from Cons.prems(1) have fresh: "unit_id u \<notin> unit_id ` set us" and rd: "distinct (map unit_id us)"
    by simp_all
  let ?nM1 = "mapSet (unit_id u) (n - 1) nM"
  let ?q1 = "if n - 1 = 0 then q @ [u] else q"
  have step: "decrementImporter (nM, q) u = Inr (?nM1, ?q1)"
    using n ge by (simp add: decrementImporter_def Let_def)
  have same: "\<And>w. w \<in> set us \<Longrightarrow> map_of ?nM1 (unit_id w) = map_of nM (unit_id w)"
  proof -
    fix w assume "w \<in> set us"
    then have "unit_id w \<in> unit_id ` set us" by simp
    with fresh have "unit_id w \<noteq> unit_id u" by auto
    then show "map_of ?nM1 (unit_id w) = map_of nM (unit_id w)"
      by (simp add: map_of_mapSet)
  qed
  with Cons.prems(2) have rok: "\<forall>w \<in> set us. \<exists>n. map_of ?nM1 (unit_id w) = Some n \<and> 1 \<le> n"
    by simp
  from Cons.IH [OF rd rok, of ?q1] obtain nM' where
    run: "foldE decrementImporter us (?nM1, ?q1)
            = Inr (nM', ?q1 @ filter (\<lambda>w. map_of ?nM1 (unit_id w) = Some 1) us)"
    and nM': "\<forall>k. map_of nM' k =
                  (if k \<in> unit_id ` set us then map_option (\<lambda>n. n - 1) (map_of ?nM1 k)
                   else map_of ?nM1 k)"
    by blast
  have f: "filter (\<lambda>w. map_of ?nM1 (unit_id w) = Some 1) us
             = filter (\<lambda>w. map_of nM (unit_id w) = Some 1) us"
    using same by (auto intro: filter_cong)
  have q: "?q1 @ filter (\<lambda>w. map_of nM (unit_id w) = Some 1) us
             = q @ filter (\<lambda>w. map_of nM (unit_id w) = Some 1) (u # us)"
    using n by auto
  have a: "foldE decrementImporter (u # us) (nM, q)
             = Inr (nM', q @ filter (\<lambda>w. map_of nM (unit_id w) = Some 1) (u # us))"
    using step run f q by simp
  have b: "\<forall>k. map_of nM' k =
                  (if k \<in> unit_id ` set (u # us) then map_option (\<lambda>n. n - 1) (map_of nM k)
                   else map_of nM k)"
  proof
    fix k
    show "map_of nM' k =
                  (if k \<in> unit_id ` set (u # us) then map_option (\<lambda>n. n - 1) (map_of nM k)
                   else map_of nM k)"
    proof (cases "k = unit_id u")
      case True
      with fresh nM' have "map_of nM' k = map_of ?nM1 k" by simp
      with True n show ?thesis by (simp add: map_of_mapSet)
    next
      case False
      then have "map_of ?nM1 k = map_of nM k" by (simp add: map_of_mapSet)
      with nM' False show ?thesis by simp
    qed
  qed
  from a b show ?case by blast
qed

definition pending ::
  "(SourceUnit \<times> SourceUnit) set \<Rightarrow> SourceUnit list \<Rightarrow> SourceUnit \<Rightarrow> SourceUnit set" where
  "pending R placed u = {v. (u, v) \<in> R \<and> v \<notin> set placed}"

definition importsBefore :: "(SourceUnit \<times> SourceUnit) set \<Rightarrow> SourceUnit list \<Rightarrow> bool" where
  "importsBefore R placed \<longleftrightarrow>
     (\<forall>pre u post. placed = pre @ u # post \<longrightarrow> (\<forall>v. (u, v) \<in> R \<longrightarrow> v \<in> set pre))"

definition kahnInv ::
  "SourceUnit list \<Rightarrow> (SourceUnit \<times> SourceUnit) set \<Rightarrow> (nat \<times> int) list \<Rightarrow> SourceUnit list
     \<Rightarrow> SourceUnit list \<Rightarrow> bool" where
  "kahnInv units R nM q placed \<longleftrightarrow>
     distinct (placed @ q) \<and> set (placed @ q) \<subseteq> set units
     \<and> (\<forall>u \<in> set units. map_of nM (unit_id u) = Some (int (card (pending R placed u))))
     \<and> (\<forall>u \<in> set units. u \<in> set (placed @ q) \<longleftrightarrow> pending R placed u = {})
     \<and> importsBefore R placed"

lemma importsBefore_snoc:
  assumes "importsBefore R placed" and "\<forall>v. (cur, v) \<in> R \<longrightarrow> v \<in> set placed"
  shows "importsBefore R (placed @ [cur])"
  unfolding importsBefore_def
proof (intro allI impI)
  fix pre u post v
  assume eq: "placed @ [cur] = pre @ u # post" and e: "(u, v) \<in> R"
  show "v \<in> set pre"
  proof (cases post rule: rev_cases)
    case Nil
    with eq have "pre = placed" "u = cur" by simp_all
    with assms(2) e show ?thesis by simp
  next
    case (snoc post' x)
    with eq have "placed = pre @ u # post'" by simp
    with assms(1) e show ?thesis unfolding importsBefore_def by blast
  qed
qed

lemma pending_snoc: "pending R (placed @ [cur]) u = pending R placed u - {cur}"
  by (auto simp: pending_def)

lemma kahn_step:
  assumes di: "distinct (map unit_id units)"
    and R: "R \<subseteq> set units \<times> set units"
    and iM: "\<forall>v \<in> set units. set (importersOf iM (unit_id v)) = {u. (u, v) \<in> R}
                             \<and> distinct (importersOf iM (unit_id v))"
    and inv: "kahnInv units R nM (cur # rest) placed"
  shows "\<exists>nM' q'. foldE decrementImporter (importersOf iM (unit_id cur)) (nM, rest) = Inr (nM', q')
           \<and> kahnInv units R nM' q' (placed @ [cur])"
proof -
  let ?us = "importersOf iM (unit_id cur)"
  from inv have d1: "distinct (placed @ cur # rest)" and sub: "set (placed @ cur # rest) \<subseteq> set units"
    and cnt: "\<forall>u \<in> set units. map_of nM (unit_id u) = Some (int (card (pending R placed u)))"
    and mem: "\<forall>u \<in> set units. u \<in> set (placed @ cur # rest) \<longleftrightarrow> pending R placed u = {}"
    and ord: "importsBefore R placed"
    by (simp_all add: kahnInv_def)
  from sub have cur: "cur \<in> set units" by simp
  from d1 have curnew: "cur \<notin> set placed" by simp
  from iM cur have us: "set ?us = {u. (u, cur) \<in> R}" and dus: "distinct ?us" by simp_all
  from us R have usub: "set ?us \<subseteq> set units" by auto
  have inj: "inj_on unit_id (set units)" using di by (simp add: distinct_map)
  have fin: "\<And>u. finite (pending R placed u)"
  proof -
    fix u
    have "pending R placed u \<subseteq> set units" using R by (auto simp: pending_def)
    then show "finite (pending R placed u)" by (rule finite_subset) simp
  qed
  have inpend: "\<And>u. u \<in> set ?us \<Longrightarrow> cur \<in> pending R placed u"
    using us curnew by (auto simp: pending_def)
  have dids: "distinct (map unit_id ?us)"
    using dus usub inj by (simp add: distinct_map inj_on_subset)
  have ge: "\<forall>u \<in> set ?us. \<exists>n. map_of nM (unit_id u) = Some n \<and> 1 \<le> n"
  proof
    fix u assume u: "u \<in> set ?us"
    with usub cnt have c: "map_of nM (unit_id u) = Some (int (card (pending R placed u)))" by blast
    from inpend [OF u] fin [of u] have "card (pending R placed u) \<ge> 1"
      by (metis One_nat_def Suc_leI card_gt_0_iff empty_iff)
    with c show "\<exists>n. map_of nM (unit_id u) = Some n \<and> 1 \<le> n" by simp
  qed
  let ?q' = "rest @ filter (\<lambda>u. map_of nM (unit_id u) = Some 1) ?us"
  from foldE_decrementImporter [OF dids ge, of rest] obtain nM' where
    run: "foldE decrementImporter ?us (nM, rest) = Inr (nM', ?q')"
    and nM': "\<forall>k. map_of nM' k =
                  (if k \<in> unit_id ` set ?us then map_option (\<lambda>n. n - 1) (map_of nM k)
                   else map_of nM k)"
    by blast
  have idmem: "\<And>u. u \<in> set units \<Longrightarrow> unit_id u \<in> unit_id ` set ?us \<longleftrightarrow> u \<in> set ?us"
    using inj usub by (auto dest: inj_onD)
  have notyet: "\<And>u. u \<in> set ?us \<Longrightarrow> u \<notin> set (placed @ cur # rest)"
  proof -
    fix u assume u: "u \<in> set ?us"
    from inpend [OF u] have "pending R placed u \<noteq> {}" by auto
    with mem usub u show "u \<notin> set (placed @ cur # rest)" by blast
  qed
  have one: "\<And>u. u \<in> set ?us \<Longrightarrow>
      map_of nM (unit_id u) = Some 1 \<longleftrightarrow> pending R (placed @ [cur]) u = {}"
  proof -
    fix u assume u: "u \<in> set ?us"
    with usub cnt have c: "map_of nM (unit_id u) = Some (int (card (pending R placed u)))" by blast
    have "card (pending R placed u) = 1 \<longleftrightarrow> pending R placed u = {cur}"
      using inpend [OF u] by (auto simp: card_1_singleton_iff)
    also have "\<dots> \<longleftrightarrow> pending R placed u - {cur} = {}"
      using inpend [OF u] by auto
    finally show "map_of nM (unit_id u) = Some 1 \<longleftrightarrow> pending R (placed @ [cur]) u = {}"
      using c by (simp add: pending_snoc)
  qed
  have i1: "distinct ((placed @ [cur]) @ ?q')"
    using d1 dus notyet by auto
  have i2: "set ((placed @ [cur]) @ ?q') \<subseteq> set units"
    using sub usub by auto
  have i3: "\<forall>u \<in> set units. map_of nM' (unit_id u)
              = Some (int (card (pending R (placed @ [cur]) u)))"
  proof
    fix u assume u: "u \<in> set units"
    show "map_of nM' (unit_id u) = Some (int (card (pending R (placed @ [cur]) u)))"
    proof (cases "u \<in> set ?us")
      case True
      from inpend [OF True] fin [of u]
      have "card (pending R placed u - {cur}) = card (pending R placed u) - 1"
        by simp
      moreover from inpend [OF True] fin [of u] have "card (pending R placed u) \<ge> 1"
        by (metis One_nat_def Suc_leI card_gt_0_iff empty_iff)
      ultimately have "int (card (pending R (placed @ [cur]) u)) = int (card (pending R placed u)) - 1"
        by (simp add: pending_snoc)
      with nM' cnt u True idmem [OF u] show ?thesis by simp
    next
      case False
      with us have "(u, cur) \<notin> R" by simp
      then have "pending R (placed @ [cur]) u = pending R placed u"
        by (auto simp: pending_def)
      with nM' cnt u False idmem [OF u] show ?thesis by simp
    qed
  qed
  have i4: "\<forall>u \<in> set units. u \<in> set ((placed @ [cur]) @ ?q') \<longleftrightarrow> pending R (placed @ [cur]) u = {}"
  proof
    fix u assume u: "u \<in> set units"
    show "u \<in> set ((placed @ [cur]) @ ?q') \<longleftrightarrow> pending R (placed @ [cur]) u = {}"
    proof (cases "u \<in> set ?us")
      case True
      from notyet [OF True] have "u \<in> set ((placed @ [cur]) @ ?q')
          \<longleftrightarrow> map_of nM (unit_id u) = Some 1"
        using True by auto
      with one [OF True] show ?thesis by simp
    next
      case False
      with us have "(u, cur) \<notin> R" by simp
      then have p: "pending R (placed @ [cur]) u = pending R placed u"
        by (auto simp: pending_def)
      from False have "u \<in> set ((placed @ [cur]) @ ?q') \<longleftrightarrow> u \<in> set (placed @ cur # rest)"
        by auto
      with mem u p show ?thesis by simp
    qed
  qed
  from mem cur have "pending R placed cur = {}" by auto
  with R have "\<forall>v. (cur, v) \<in> R \<longrightarrow> v \<in> set placed"
    by (auto simp: pending_def)
  from importsBefore_snoc [OF ord this] have i5: "importsBefore R (placed @ [cur])" .
  from i1 i2 i3 i4 i5 have "kahnInv units R nM' ?q' (placed @ [cur])"
    unfolding kahnInv_def by blast
  with run show ?thesis by blast
qed

lemma kahn_correct:
  "distinct (map unit_id units) \<Longrightarrow> R \<subseteq> set units \<times> set units \<Longrightarrow>
   \<forall>v \<in> set units. set (importersOf iM (unit_id v)) = {u. (u, v) \<in> R}
                       \<and> distinct (importersOf iM (unit_id v)) \<Longrightarrow>
   kahnInv units R nM q placed \<Longrightarrow>
   \<exists>res nM'. kahn iM nM q placed = Inr res \<and> kahnInv units R nM' [] res"
proof (induction iM nM q placed rule: kahn.induct)
  case (1 iM nM q placed)
  show ?case
  proof (cases q)
    case Nil
    then have "kahn iM nM q placed = Inr placed" by (simp add: kahn.simps)
    with "1.prems"(4) Nil show ?thesis by blast
  next
    case (Cons cur rest)
    from kahn_step [OF "1.prems"(1,2,3)] "1.prems"(4) Cons obtain nM1 q1 where
      run: "foldE decrementImporter (importersOf iM (unit_id cur)) (nM, rest) = Inr (nM1, q1)"
      and inv: "kahnInv units R nM1 q1 (placed @ [cur])"
      by blast
    from "1.IH" [OF Cons run refl "1.prems"(1,2,3) inv] obtain res nM' where
      res: "kahn iM nM1 q1 (placed @ [cur]) = Inr res" and fin: "kahnInv units R nM' [] res"
      by blast
    from Cons run res have "kahn iM nM q placed = Inr res"
      by (subst kahn.simps) simp
    with fin show ?thesis by blast
  qed
qed


lemma importGraph_units: "importGraph units \<subseteq> set units \<times> set units"
  by (auto simp: importGraph_def)

lemma topoSort_run:
  assumes wf: "wellFormedUnits units"
  shows "\<exists>res nM. kahnInv units (importGraph units) nM [] res
           \<and> topoSort units =
               (if length res = length units then Inr res
                else Inl (AssertionFailed (topoSortMessage (length res) (length units))))"
proof -
  let ?R = "importGraph units"
  from wf have di: "distinct (map unit_id units)" by (simp add: wellFormedUnits_def)
  then have du: "distinct units" by (simp add: distinct_map)
  from phase1 [OF wf] obtain nM iM where
    p1: "foldE (registerUnit (pathMap units)) units ([], Map.empty) = Inr (nM, iM)"
    and cnt: "\<forall>u \<in> set units. map_of nM (unit_id u) = Some (int (card {v. (u, v) \<in> ?R}))"
    and imps: "\<forall>v \<in> set units. set (importersOf iM (unit_id v)) = {u. (u, v) \<in> ?R}
                             \<and> distinct (importersOf iM (unit_id v))"
    by blast
  let ?q = "filter (\<lambda>unit. map_of nM (unit_id unit) = Some 0) units"
  have pend: "\<And>u. pending ?R [] u = {v. (u, v) \<in> ?R}"
    by (simp add: pending_def)
  have fin: "\<And>u. finite {v. (u, v) \<in> ?R}"
  proof -
    fix u
    have "{v. (u, v) \<in> ?R} \<subseteq> set units" by (auto simp: importGraph_def)
    then show "finite {v. (u, v) \<in> ?R}" by (rule finite_subset) simp
  qed
  have mem: "\<forall>u \<in> set units. u \<in> set ([] @ ?q) \<longleftrightarrow> pending ?R [] u = {}"
    using cnt fin by (auto simp: pend)
  have "importsBefore ?R []" by (simp add: importsBefore_def)
  with du cnt mem have inv: "kahnInv units ?R nM ?q []"
    unfolding kahnInv_def by (simp add: pend)
  from kahn_correct [OF di importGraph_units imps inv] obtain res nM' where
    run: "kahn iM nM ?q [] = Inr res" and fin: "kahnInv units ?R nM' [] res"
    by blast
  from p1 run have "topoSort units =
               (if length res = length units then Inr res
                else Inl (AssertionFailed (topoSortMessage (length res) (length units))))"
    by (simp add: topoSort_def bindE_def Let_def)
  with fin show ?thesis by blast
qed

lemma kahn_final_complete:
  assumes inv: "kahnInv units R nM [] res" and R: "R \<subseteq> set units \<times> set units"
    and ac: "acyclic R"
  shows "set res = set units"
proof (rule ccontr)
  assume ne: "set res \<noteq> set units"
  from inv have sub: "set res \<subseteq> set units"
    and mem: "\<forall>u \<in> set units. u \<in> set res \<longleftrightarrow> pending R res u = {}"
    by (simp_all add: kahnInv_def)
  from ne sub obtain x where x: "x \<in> set units - set res" by auto
  have "finite R" using R by (rule finite_subset) simp
  then have "finite (R\<inverse>)" by simp
  moreover from ac have "acyclic (R\<inverse>)" by simp
  ultimately have "wf (R\<inverse>)" by (rule finite_acyclic_wf)
  from wfE_min [OF this x] obtain z where z: "z \<in> set units - set res"
    and min: "\<And>y. (y, z) \<in> R\<inverse> \<Longrightarrow> y \<notin> set units - set res"
    by blast
  have "pending R res z = {}"
  proof (rule ccontr)
    assume "pending R res z \<noteq> {}"
    then obtain v where e: "(z, v) \<in> R" and v: "v \<notin> set res" by (auto simp: pending_def)
    from e R have "v \<in> set units" by auto
    with v have "v \<in> set units - set res" by simp
    moreover from e have "(v, z) \<in> R\<inverse>" by simp
    ultimately show False using min by blast
  qed
  with mem z show False by blast
qed

lemma importsBefore_positions:
  assumes ord: "importsBefore R res" and e: "(u, v) \<in> R" and u: "u \<in> set res"
  shows "\<exists>i j. j < i \<and> i < length res \<and> res ! i = u \<and> res ! j = v"
proof -
  from u obtain pre post where res: "res = pre @ u # post" by (auto dest: split_list)
  with ord e have "v \<in> set pre" unfolding importsBefore_def by blast
  then obtain j where j: "j < length pre" and vj: "pre ! j = v"
    by (auto simp: in_set_conv_nth)
  have "res ! length pre = u" using res by simp
  moreover have "res ! j = v" using res j vj by (simp add: nth_append)
  moreover have "length pre < length res" using res by simp
  ultimately show ?thesis using j by blast
qed

lemma takeWhile_until:
  "u \<notin> set pre \<Longrightarrow> takeWhile (\<lambda>x. x \<noteq> u) (pre @ u # post) = pre"
  by (induction pre) auto

lemma takeWhile_before:
  "v \<in> set pre \<Longrightarrow> length (takeWhile (\<lambda>x. x \<noteq> v) (pre @ rest)) < length pre"
  by (induction pre) auto

lemma importsBefore_acyclic:
  assumes ord: "importsBefore R res" and d: "distinct res" and R: "R \<subseteq> set res \<times> set res"
  shows "acyclic R"
proof -
  let ?pos = "\<lambda>u. length (takeWhile (\<lambda>x. x \<noteq> u) res)"
  have "R\<inverse> \<subseteq> inv_image less_than ?pos"
  proof
    fix p assume "p \<in> R\<inverse>"
    then obtain v u where p: "p = (v, u)" and e: "(u, v) \<in> R" by auto
    from e R have "u \<in> set res" by auto
    then obtain pre post where res: "res = pre @ u # post" by (auto dest: split_list)
    with ord e have v: "v \<in> set pre" unfolding importsBefore_def by blast
    from res d have "u \<notin> set pre" by auto
    then have pu: "?pos u = length pre"
      unfolding res by (simp add: takeWhile_until)
    from v have "?pos v < length pre"
      unfolding res by (rule takeWhile_before)
    with pu have "?pos v < ?pos u" by simp
    with p show "p \<in> inv_image less_than ?pos" by simp
  qed
  moreover have "wf (inv_image less_than ?pos)" by simp
  ultimately have "wf (R\<inverse>)" by (rule wf_subset [rotated])
  then have "acyclic (R\<inverse>)" by (rule wf_acyclic)
  then show ?thesis by simp
qed

text \<open>
  C3. On a well-formed list of units whose import graph is acyclic, \<open>topoSort\<close> returns a
  permutation of the list in which every unit stands after every unit it imports; on a
  well-formed list whose import graph has a cycle it returns nothing: the final assertion
  fails, fewer units having been sorted than the list holds.
\<close>

theorem topoSort_sorts_or_fails:
  assumes wf: "wellFormedUnits units"
  shows "(acyclic (importGraph units) \<longrightarrow>
            (\<exists>sortedUnits. topoSort units = Inr sortedUnits
               \<and> mset sortedUnits = mset units
               \<and> (\<forall>(unit, importee) \<in> importGraph units.
                     \<exists>i j. j < i \<and> i < length sortedUnits
                       \<and> sortedUnits ! i = unit \<and> sortedUnits ! j = importee)))
         \<and> (\<not> acyclic (importGraph units) \<longrightarrow>
              (\<exists>n. n < length units
                 \<and> topoSort units =
                     Inl (AssertionFailed
                            (''Topo sort didn't preserve list: sorted - '' @ showNat n
                               @ '' original - '' @ showNat (length units)))))"
proof -
  let ?R = "importGraph units"
  from wf have "distinct (map unit_id units)" by (simp add: wellFormedUnits_def)
  then have du: "distinct units" by (simp add: distinct_map)
  from topoSort_run [OF wf] obtain res nM where
    inv: "kahnInv units ?R nM [] res"
    and run: "topoSort units =
               (if length res = length units then Inr res
                else Inl (AssertionFailed (topoSortMessage (length res) (length units))))"
    by blast
  from inv have dres: "distinct res" and sub: "set res \<subseteq> set units"
    and ord: "importsBefore ?R res"
    by (simp_all add: kahnInv_def)
  from sub have le: "length res \<le> length units"
    using dres du by (metis card_mono distinct_card List.finite_set)
  have part1: "acyclic ?R \<longrightarrow>
            (\<exists>sortedUnits. topoSort units = Inr sortedUnits
               \<and> mset sortedUnits = mset units
               \<and> (\<forall>(unit, importee) \<in> ?R.
                     \<exists>i j. j < i \<and> i < length sortedUnits
                       \<and> sortedUnits ! i = unit \<and> sortedUnits ! j = importee))"
  proof
    assume "acyclic ?R"
    from kahn_final_complete [OF inv importGraph_units this] have eq: "set res = set units" .
    with dres du have m: "mset res = mset units"
      by (simp add: set_eq_iff_mset_eq_distinct)
    then have "length res = length units" by (metis size_mset)
    with run have r: "topoSort units = Inr res" by simp
    have "\<forall>(unit, importee) \<in> ?R.
                     \<exists>i j. j < i \<and> i < length res \<and> res ! i = unit \<and> res ! j = importee"
    proof (intro ballI, clarify)
      fix u v assume e: "(u, v) \<in> ?R"
      then have "u \<in> set res" using eq by (auto simp: importGraph_def)
      from importsBefore_positions [OF ord e this]
      show "\<exists>i j. j < i \<and> i < length res \<and> res ! i = u \<and> res ! j = v" .
    qed
    with r m show "\<exists>sortedUnits. topoSort units = Inr sortedUnits
               \<and> mset sortedUnits = mset units
               \<and> (\<forall>(unit, importee) \<in> ?R.
                     \<exists>i j. j < i \<and> i < length sortedUnits
                       \<and> sortedUnits ! i = unit \<and> sortedUnits ! j = importee)"
      by blast
  qed
  have part2: "\<not> acyclic ?R \<longrightarrow>
              (\<exists>n. n < length units
                 \<and> topoSort units =
                     Inl (AssertionFailed
                            (''Topo sort didn't preserve list: sorted - '' @ showNat n
                               @ '' original - '' @ showNat (length units))))"
  proof
    assume cyc: "\<not> acyclic ?R"
    have "length res \<noteq> length units"
    proof
      assume len: "length res = length units"
      with sub dres du have "set res = set units"
        by (metis card_subset_eq distinct_card List.finite_set)
      with importGraph_units have "?R \<subseteq> set res \<times> set res" by simp
      from importsBefore_acyclic [OF ord dres this] cyc show False by simp
    qed
    with le run have "length res < length units"
      and "topoSort units = Inl (AssertionFailed (topoSortMessage (length res) (length units)))"
      by simp_all
    then show "\<exists>n. n < length units
                 \<and> topoSort units =
                     Inl (AssertionFailed
                            (''Topo sort didn't preserve list: sorted - '' @ showNat n
                               @ '' original - '' @ showNat (length units)))"
      unfolding topoSortMessage_def by blast
  qed
  from part1 part2 show ?thesis by blast
qed


definition exUnitA :: SourceUnit where
  "exUnitA = \<lparr>unit_id = 1, absolutePath = ''a.sol'', sourceEntryKey = ''a.sol'',
     vImportDirectives = [\<lparr>vSourceUnit_id = 2, vSourceUnit_absolutePath = ''b.sol''\<rparr>,
                          \<lparr>vSourceUnit_id = 3, vSourceUnit_absolutePath = ''c.sol''\<rparr>],
     vFreeFunctions = [], vContracts = [], unit_nodes = []\<rparr>"

definition exUnitB :: SourceUnit where
  "exUnitB = \<lparr>unit_id = 2, absolutePath = ''b.sol'', sourceEntryKey = ''b.sol'',
     vImportDirectives = [\<lparr>vSourceUnit_id = 3, vSourceUnit_absolutePath = ''c.sol''\<rparr>],
     vFreeFunctions = [], vContracts = [], unit_nodes = []\<rparr>"

definition exUnitC :: SourceUnit where
  "exUnitC = \<lparr>unit_id = 3, absolutePath = ''c.sol'', sourceEntryKey = ''c.sol'',
     vImportDirectives = [], vFreeFunctions = [], vContracts = [], unit_nodes = []\<rparr>"

definition exUnitCyclic :: SourceUnit where
  "exUnitCyclic = \<lparr>unit_id = 3, absolutePath = ''c.sol'', sourceEntryKey = ''c.sol'',
     vImportDirectives = [\<lparr>vSourceUnit_id = 1, vSourceUnit_absolutePath = ''a.sol''\<rparr>],
     vFreeFunctions = [], vContracts = [], unit_nodes = []\<rparr>"

lemma exUnits_wellFormed:
  "wellFormedUnits [exUnitA, exUnitB, exUnitC]"
  "wellFormedUnits [exUnitA, exUnitB, exUnitCyclic]"
  by code_simp+

lemma exUnits_sorted: "topoSort [exUnitA, exUnitB, exUnitC] = Inr [exUnitC, exUnitB, exUnitA]"
  by code_simp

lemma exUnits_cyclic:
  "topoSort [exUnitA, exUnitB, exUnitCyclic] =
     Inl (AssertionFailed ''Topo sort didn't preserve list: sorted - 0 original - 3'')"
  by code_simp

theorem topoSort_sorts_or_fails_witness:
  "wellFormedUnits [exUnitA, exUnitB, exUnitC]
   \<and> acyclic (importGraph [exUnitA, exUnitB, exUnitC])
   \<and> topoSort [exUnitA, exUnitB, exUnitC] = Inr [exUnitC, exUnitB, exUnitA]
   \<and> wellFormedUnits [exUnitA, exUnitB, exUnitCyclic]
   \<and> \<not> acyclic (importGraph [exUnitA, exUnitB, exUnitCyclic])
   \<and> topoSort [exUnitA, exUnitB, exUnitCyclic] =
       Inl (AssertionFailed ''Topo sort didn't preserve list: sorted - 0 original - 3'')"
  using topoSort_sorts_or_fails [OF exUnits_wellFormed(1)]
    topoSort_sorts_or_fails [OF exUnits_wellFormed(2)]
    exUnits_wellFormed exUnits_sorted exUnits_cyclic
  by auto

section \<open>Flattening: name conflicts and broken references\<close>

text \<open>
  In flat and json mode the units are merged into one file. \<open>fixNameConflicts\<close> renames
  top-level definitions that share a name, and \<open>fixRenamingErrors\<close> repairs the
  identifiers, type names and member accesses that the renaming, or an
  \<open>import {a as b}\<close>, would otherwise break.

  Both functions mutate the syntax tree in place. Here the declarations live in a store that
  maps the identifier of a node to what the two functions read of it: which kind of
  declaration it is, its name and its \<open>vScope\<close> (a source unit, a contract, or anything
  else). A unit is given by the identifiers of its contracts, structs and enums, in order,
  and by the list of its \<open>Identifier\<close>, \<open>UserDefinedTypeName\<close> and \<open>MemberAccess\<close> nodes in
  the order in which \<open>getChildrenBySelector\<close> returns them. A reference node carries its
  name (the member name for a member access), the identifier of the declaration it refers
  to, if any, and its type scope, the closest enclosing unit or contract. Of the base of a
  member access only what is tested is kept: whether it is an identifier, and which
  declaration that identifier refers to.

  A member access may be replaced by another node, so it also carries what \<open>replaceNode\<close>
  reads of it: its identifier, its context, and how its parent holds it. The parent holds
  the node as the value of an own property, as the value of a getter and setter pair of its
  prototype chain, or in neither way (as an element of an array-valued property, say); the
  last case is given with the type and the identifier of the parent, which the failure
  message prints. A node may also have no parent.
\<close>

datatype DeclKind =
    ContractDecl | StructDecl | EnumDecl | FunctionDecl | VariableDecl
  | SourceUnitDecl | ImportDirectiveDecl | OtherDecl

datatype DeclScope = ScopeUnit nat | ScopeContr nat | ScopeElse

record Declaration =
  decl_kind :: DeclKind
  decl_name :: string
  decl_vScope :: DeclScope

type_synonym Store = "nat \<Rightarrow> Declaration"

datatype ExternalReferenceType = UserDefined | Builtin

datatype BaseExpression = BaseIdentifier "nat option" | BaseOtherExpression

datatype ParentLink = NoParent | OwnProperty | AccessorProperty | NotAProperty string nat

record TreeLink =
  link_id :: nat
  link_context :: nat
  link_parent :: ParentLink

datatype RefNode =
    Identifier string ExternalReferenceType "nat option" DeclScope
  | UserDefinedTypeName string "nat option" DeclScope
  | MemberAccess BaseExpression string "nat option" DeclScope TreeLink

record FlatUnit =
  fu_vContracts :: "nat list"
  fu_vStructs :: "nat list"
  fu_vEnums :: "nat list"
  fu_refNodes :: "RefNode list"

definition pushDef :: "Store \<Rightarrow> (string \<times> nat list) list \<Rightarrow> nat \<Rightarrow> (string \<times> nat list) list" where
  "pushDef store nameMap d =
     (let name = decl_name (store d)
      in case map_of nameMap name of
           None \<Rightarrow> nameMap @ [(name, [d])]
         | Some defs \<Rightarrow> mapSet name (defs @ [d]) nameMap)"

definition topLevelDefs :: "FlatUnit \<Rightarrow> nat list" where
  "topLevelDefs unit = fu_vContracts unit @ fu_vStructs unit @ fu_vEnums unit"

definition collectNames :: "FlatUnit list \<Rightarrow> Store \<Rightarrow> (string \<times> nat list) list" where
  "collectNames units store =
     foldl (\<lambda>nameMap unit.
              foldl (pushDef store)
                (foldl (pushDef store) (foldl (pushDef store) nameMap (fu_vContracts unit))
                   (fu_vStructs unit))
                (fu_vEnums unit))
       [] units"

definition rename :: "nat \<Rightarrow> nat \<Rightarrow> Store \<Rightarrow> Store" where
  "rename d defIdx store =
     store(d := (store d)\<lparr>decl_name := decl_name (store d) @ ''_'' @ showNat defIdx\<rparr>)"

fun renameFrom :: "nat \<Rightarrow> nat list \<Rightarrow> Store \<Rightarrow> Store" where
  "renameFrom defIdx [] store = store"
| "renameFrom defIdx (d # defs) store = renameFrom (defIdx + 1) defs (rename d defIdx store)"

definition renameAfterFirst :: "nat list \<Rightarrow> Store \<Rightarrow> Store" where
  "renameAfterFirst defs store = renameFrom 1 (drop 1 defs) store"

definition fixNameConflicts :: "FlatUnit list \<Rightarrow> Store \<Rightarrow> Store" where
  "fixNameConflicts units store =
     foldl (\<lambda>st (name, defs). renameAfterFirst defs st) store (collectNames units store)"


subsection \<open>The names after \<open>fixNameConflicts\<close>\<close>

text \<open>
  \<open>allDefs\<close> lists the top-level definitions in the order in which the first loop sees
  them: unit by unit, and in each unit the contracts, then the structs, then the enums.
\<close>

definition allDefs :: "FlatUnit list \<Rightarrow> nat list" where
  "allDefs units = concat (map topLevelDefs units)"

lemma collectNames_flat:
  "collectNames units store = foldl (pushDef store) [] (allDefs units)"
proof -
  have "\<And>m. foldl (\<lambda>nameMap unit.
              foldl (pushDef store)
                (foldl (pushDef store) (foldl (pushDef store) nameMap (fu_vContracts unit))
                   (fu_vStructs unit))
                (fu_vEnums unit)) m units
          = foldl (pushDef store) m (concat (map topLevelDefs units))"
    by (induction units) (simp_all add: topLevelDefs_def)
  then show ?thesis by (simp add: collectNames_def allDefs_def)
qed

lemma mapSet_absent: "map_of m k = None \<Longrightarrow> mapSet k v m = m @ [(k, v)]"
  by (induction m) (auto split: if_splits)

lemma keys_mapSet: "fst ` set (mapSet k v m) = insert k (fst ` set m)"
proof (induction m)
  case Nil
  show ?case by simp
next
  case (Cons p m)
  obtain k' v' where p: "p = (k', v')" by (cases p)
  show ?case
  proof (cases "k' = k")
    case True
    with p show ?thesis by simp
  next
    case False
    with p Cons.IH show ?thesis by (simp add: insert_commute)
  qed
qed

lemma distinct_mapSet: "distinct (map fst m) \<Longrightarrow> distinct (map fst (mapSet k v m))"
proof (induction m)
  case Nil
  show ?case by simp
next
  case (Cons p m)
  obtain k' v' where p: "p = (k', v')" by (cases p)
  show ?case
  proof (cases "k' = k")
    case True
    with Cons.prems p show ?thesis by simp
  next
    case False
    from Cons.prems p have "k' \<notin> fst ` set m" and "distinct (map fst m)" by simp_all
    with False have "k' \<notin> fst ` set (mapSet k v m)" by (simp add: keys_mapSet)
    with Cons.IH \<open>distinct (map fst m)\<close> False p show ?thesis by simp
  qed
qed

lemma pushDef_mapSet:
  "pushDef store m d =
     mapSet (decl_name (store d))
       ((case map_of m (decl_name (store d)) of None \<Rightarrow> [] | Some defs \<Rightarrow> defs) @ [d]) m"
  by (simp add: pushDef_def Let_def mapSet_absent split: option.splits)

lemma foldl_pushDef:
  "distinct (map fst (foldl (pushDef store) [] ds))
   \<and> (\<forall>n. map_of (foldl (pushDef store) [] ds) n =
          (if filter (\<lambda>d. decl_name (store d) = n) ds = [] then None
           else Some (filter (\<lambda>d. decl_name (store d) = n) ds)))"
proof (induction ds rule: rev_induct)
  case Nil
  show ?case by simp
next
  case (snoc d ds)
  let ?m = "foldl (pushDef store) [] ds"
  from snoc have dm: "distinct (map fst ?m)"
    and mo: "\<And>n. map_of ?m n =
          (if filter (\<lambda>d. decl_name (store d) = n) ds = [] then None
           else Some (filter (\<lambda>d. decl_name (store d) = n) ds))"
    by simp_all
  have step: "foldl (pushDef store) [] (ds @ [d]) = pushDef store ?m d" by simp
  have g: "(case map_of ?m (decl_name (store d)) of None \<Rightarrow> [] | Some defs \<Rightarrow> defs)
             = filter (\<lambda>e. decl_name (store e) = decl_name (store d)) ds"
    by (simp add: mo)
  have push: "pushDef store ?m d =
      mapSet (decl_name (store d))
        (filter (\<lambda>e. decl_name (store e) = decl_name (store d)) ds @ [d]) ?m"
    using pushDef_mapSet [of store ?m d] g by simp
  have a: "distinct (map fst (foldl (pushDef store) [] (ds @ [d])))"
    unfolding step push using dm by (rule distinct_mapSet)
  have b: "\<forall>n. map_of (foldl (pushDef store) [] (ds @ [d])) n =
          (if filter (\<lambda>d. decl_name (store d) = n) (ds @ [d]) = [] then None
           else Some (filter (\<lambda>d. decl_name (store d) = n) (ds @ [d])))"
    unfolding step push by (simp add: map_of_mapSet mo)
  from a b show ?case by blast
qed

definition posIn :: "'a \<Rightarrow> 'a list \<Rightarrow> nat" where
  "posIn d g = length (takeWhile (\<lambda>x. x \<noteq> d) g)"

definition renamed :: "Store \<Rightarrow> nat \<Rightarrow> nat \<Rightarrow> Declaration" where
  "renamed store p d =
     (if p = 0 then store d
      else (store d)\<lparr>decl_name := decl_name (store d) @ ''_'' @ showNat p\<rparr>)"

lemma renamed_cong: "store1 d = store d \<Longrightarrow> renamed store1 p d = renamed store p d"
  by (simp add: renamed_def)

lemma renameFrom_apply:
  "distinct ds \<Longrightarrow> 0 < j \<Longrightarrow>
     renameFrom j ds store d =
       (if d \<in> set ds then renamed store (j + posIn d ds) d else store d)"
proof (induction ds arbitrary: j store)
  case Nil
  show ?case by simp
next
  case (Cons x ds)
  from Cons.prems have xs: "x \<notin> set ds" and dd: "distinct ds" by simp_all
  have IH: "renameFrom (j + 1) ds (rename x j store) d =
       (if d \<in> set ds then renamed (rename x j store) (j + 1 + posIn d ds) d
        else rename x j store d)"
    by (rule Cons.IH [OF dd]) simp
  have unfold: "renameFrom j (x # ds) store d = renameFrom (j + 1) ds (rename x j store) d"
    by simp
  show ?case
  proof (cases "d = x")
    case True
    have "rename x j store x = renamed store j x"
      using Cons.prems(2) by (simp add: rename_def renamed_def)
    with True xs IH show ?thesis
      unfolding unfold by (simp add: posIn_def)
  next
    case False
    then have same: "rename x j store d = store d" by (simp add: rename_def)
    from False have pos: "posIn d (x # ds) = 1 + posIn d ds" by (simp add: posIn_def)
    have rc: "\<And>p. renamed (rename x j store) p d = renamed store p d"
      using same by (rule renamed_cong)
    show ?thesis
      unfolding unfold IH using False same pos by (simp add: rc)
  qed
qed

lemma renameAfterFirst_apply:
  assumes "distinct g"
  shows "renameAfterFirst g store d =
           (if d \<in> set g then renamed store (posIn d g) d else store d)"
proof (cases g)
  case Nil
  then show ?thesis by (simp add: renameAfterFirst_def)
next
  case (Cons x rest)
  with assms have xs: "x \<notin> set rest" and dr: "distinct rest" by simp_all
  have "renameAfterFirst g store d = renameFrom 1 rest store d"
    using Cons by (simp add: renameAfterFirst_def)
  also have "\<dots> = (if d \<in> set rest then renamed store (1 + posIn d rest) d else store d)"
    using renameFrom_apply [OF dr, of 1 store d] by simp
  also have "\<dots> = (if d \<in> set g then renamed store (posIn d g) d else store d)"
    using Cons xs by (auto simp: posIn_def renamed_def)
  finally show ?thesis .
qed

lemma foldl_renameAfterFirst:
  assumes "distinct ds"
  shows "distinct (map fst es) \<Longrightarrow>
         \<forall>(n, g) \<in> set es. g = filter (\<lambda>e. nm e = n) ds \<Longrightarrow>
         foldl (\<lambda>st (n, g). renameAfterFirst g st) store es d =
           (if nm d \<in> fst ` set es \<and> d \<in> set ds
            then renamed store (posIn d (filter (\<lambda>e. nm e = nm d) ds)) d
            else store d)"
proof (induction es arbitrary: store)
  case Nil
  show ?case by simp
next
  case (Cons p es)
  obtain n g where p: "p = (n, g)" by (cases p)
  from Cons.prems p have fresh: "n \<notin> fst ` set es" and de: "distinct (map fst es)"
    and g: "g = filter (\<lambda>e. nm e = n) ds"
    and rest: "\<forall>(n, g) \<in> set es. g = filter (\<lambda>e. nm e = n) ds"
    by auto
  from assms g have dg: "distinct g" by simp
  let ?store1 = "renameAfterFirst g store"
  have fold: "foldl (\<lambda>st (n, g). renameAfterFirst g st) store (p # es) d
        = foldl (\<lambda>st (n, g). renameAfterFirst g st) ?store1 es d"
    by (simp add: p)
  note IH = Cons.IH [OF de rest, of ?store1]
  show ?case
  proof (cases "nm d = n \<and> d \<in> set ds")
    case True
    then have "d \<in> set g" by (simp add: g)
    with renameAfterFirst_apply [OF dg, of store d]
    have s1: "?store1 d = renamed store (posIn d g) d" by simp
    from True fresh have "nm d \<notin> fst ` set es" by simp
    with IH have "foldl (\<lambda>st (n, g). renameAfterFirst g st) ?store1 es d = ?store1 d" by simp
    with fold s1 True g p show ?thesis by simp
  next
    case False
    then have "d \<notin> set g" by (auto simp: g)
    with renameAfterFirst_apply [OF dg, of store d] have s1: "?store1 d = store d" by simp
    have cond: "(nm d \<in> fst ` set (p # es) \<and> d \<in> set ds) = (nm d \<in> fst ` set es \<and> d \<in> set ds)"
      using False p by auto
    have rc: "\<And>p. renamed ?store1 p d = renamed store p d"
      using s1 by (rule renamed_cong)
    show ?thesis
      unfolding fold IH cond using s1 by (simp add: rc)
  qed
qed

lemma posIn_filter:
  "distinct ds \<Longrightarrow> i < length ds \<Longrightarrow> P (ds ! i) \<Longrightarrow>
     posIn (ds ! i) (filter P ds) = length (filter P (take i ds))"
proof (induction ds arbitrary: i)
  case Nil
  then show ?case by simp
next
  case (Cons x ds)
  show ?case
  proof (cases i)
    case 0
    with Cons.prems show ?thesis by (simp add: posIn_def)
  next
    case (Suc j)
    with Cons.prems have j: "j < length ds" and P: "P (ds ! j)" and dd: "distinct ds"
      and ne: "x \<noteq> ds ! j"
      by auto
    from Cons.IH [OF dd j P] Suc ne show ?thesis
      by (simp add: posIn_def)
  qed
qed

lemma fixNameConflicts_names:
  assumes "distinct (allDefs units)" and "i < length (allDefs units)"
  shows "fixNameConflicts units store (allDefs units ! i) =
           (let d = allDefs units ! i;
                k = length (filter (\<lambda>e. decl_name (store e) = decl_name (store d))
                              (take i (allDefs units)))
            in if k = 0 then store d
               else (store d)\<lparr>decl_name := decl_name (store d) @ ''_'' @ showNat k\<rparr>)"
proof -
  let ?ds = "allDefs units" and ?nm = "\<lambda>e. decl_name (store e)"
  let ?m = "foldl (pushDef store) [] ?ds"
  let ?d = "?ds ! i"
  from foldl_pushDef [of store ?ds] have dm: "distinct (map fst ?m)"
    and mo: "\<And>n. map_of ?m n =
          (if filter (\<lambda>d. ?nm d = n) ?ds = [] then None
           else Some (filter (\<lambda>d. ?nm d = n) ?ds))"
    by simp_all
  have entries: "\<forall>(n, g) \<in> set ?m. g = filter (\<lambda>e. ?nm e = n) ?ds"
  proof (intro ballI, clarify)
    fix n g assume "(n, g) \<in> set ?m"
    with dm have "map_of ?m n = Some g" by simp
    with mo [of n] show "g = filter (\<lambda>e. ?nm e = n) ?ds" by (simp split: if_splits)
  qed
  from assms(2) have din: "?d \<in> set ?ds" by simp
  then have "filter (\<lambda>e. ?nm e = ?nm ?d) ?ds \<noteq> []"
    by (auto simp: filter_empty_conv)
  with mo [of "?nm ?d"] have "map_of ?m (?nm ?d) \<noteq> None" by simp
  then have key: "?nm ?d \<in> fst ` set ?m" by (simp add: map_of_eq_None_iff)
  have "fixNameConflicts units store ?d
          = foldl (\<lambda>st (n, g). renameAfterFirst g st) store ?m ?d"
    by (simp add: fixNameConflicts_def collectNames_flat)
  also have "\<dots> = renamed store (posIn ?d (filter (\<lambda>e. ?nm e = ?nm ?d) ?ds)) ?d"
    using foldl_renameAfterFirst [OF assms(1) dm entries, of store ?d] key din by simp
  also have "posIn ?d (filter (\<lambda>e. ?nm e = ?nm ?d) ?ds)
               = length (filter (\<lambda>e. ?nm e = ?nm ?d) (take i ?ds))"
    using posIn_filter [OF assms(1,2), of "\<lambda>e. ?nm e = ?nm ?d"] by simp
  finally show ?thesis by (simp add: renamed_def Let_def)
qed

lemma fixNameConflicts_others:
  assumes "distinct (allDefs units)" and "d \<notin> set (allDefs units)"
  shows "fixNameConflicts units store d = store d"
proof -
  let ?ds = "allDefs units" and ?nm = "\<lambda>e. decl_name (store e)"
  let ?m = "foldl (pushDef store) [] ?ds"
  from foldl_pushDef [of store ?ds] have dm: "distinct (map fst ?m)"
    and mo: "\<And>n. map_of ?m n =
          (if filter (\<lambda>d. ?nm d = n) ?ds = [] then None
           else Some (filter (\<lambda>d. ?nm d = n) ?ds))"
    by simp_all
  have entries: "\<forall>(n, g) \<in> set ?m. g = filter (\<lambda>e. ?nm e = n) ?ds"
  proof (intro ballI, clarify)
    fix n g assume "(n, g) \<in> set ?m"
    with dm have "map_of ?m n = Some g" by simp
    with mo [of n] show "g = filter (\<lambda>e. ?nm e = n) ?ds" by (simp split: if_splits)
  qed
  have "fixNameConflicts units store d
          = foldl (\<lambda>st (n, g). renameAfterFirst g st) store ?m d"
    by (simp add: fixNameConflicts_def collectNames_flat)
  also have "\<dots> = store d"
    using foldl_renameAfterFirst [OF assms(1) dm entries, of store d] assms(2) by simp
  finally show ?thesis .
qed


subsection \<open>\<open>fixRenamingErrors\<close>\<close>

text \<open>
  \<open>getFQName\<close> compares the type scope of a contract-level function with the type scope of
  the use site; the type scope of such a function is the contract that is its \<open>vScope\<close>.
  The assertion on the scope is a branch of the result.
\<close>

definition getFQName :: "Store \<Rightarrow> nat \<Rightarrow> DeclScope \<Rightarrow> error + string" where
  "getFQName store d atUseSite =
     (let def = store d
      in if decl_kind def = ContractDecl then Inr (decl_name def)
         else (case decl_vScope def of
                 ScopeElse \<Rightarrow> Inl (AssertionFailed [])
               | ScopeUnit u \<Rightarrow> Inr (decl_name def)
               | ScopeContr c \<Rightarrow>
                   if decl_kind def = FunctionDecl \<and> ScopeContr c = atUseSite
                   then Inr (decl_name def)
                   else Inr (decl_name (store c) @ ''.'' @ decl_name def)))"

text \<open>
  \<open>replaceNode\<close> on a member access; the result is the node that stands at its place
  afterwards. The contexts of the two nodes must agree. Without a parent nothing is done.
  The node is replaced when the parent holds it as an own property or through a getter and
  setter pair; otherwise the final \<open>assert(false, ...)\<close> is reached.
\<close>

definition replaceNode :: "TreeLink \<Rightarrow> nat \<Rightarrow> RefNode \<Rightarrow> RefNode \<Rightarrow> error + RefNode" where
  "replaceNode link newContext oldNode newNode =
     (if link_context link \<noteq> newContext then Inl (AssertionFailed ''Context mismatch'')
      else (case link_parent link of
              NoParent \<Rightarrow> Inr oldNode
            | OwnProperty \<Rightarrow> Inr newNode
            | AccessorProperty \<Rightarrow> Inr newNode
            | NotAProperty parentType parentId \<Rightarrow>
                Inl (AssertionFailed
                       (''Couldn't find child MemberAccess#'' @ showNat (link_id link)
                          @ '' under parent '' @ parentType @ ''#'' @ showNat parentId))))"

text \<open>
  The body of the inner loop for one reference node: the three guards that \<open>continue\<close>, the
  fully-qualified name, and then either the replacement of a member access by the identifier
  that \<open>factory.makeIdentifierFor\<close> builds in the context of the factory, or the assignment
  to the name. The result is the node that stands in the tree afterwards.
\<close>

fun vReferencedDeclaration :: "RefNode \<Rightarrow> nat option" where
  "vReferencedDeclaration (Identifier name t r s) = r"
| "vReferencedDeclaration (UserDefinedTypeName name r s) = r"
| "vReferencedDeclaration (MemberAccess b m r s l) = r"

fun typeScope :: "RefNode \<Rightarrow> DeclScope" where
  "typeScope (Identifier name t r s) = s"
| "typeScope (UserDefinedTypeName name r s) = s"
| "typeScope (MemberAccess b m r s l) = s"

fun isBuiltinIdentifier :: "RefNode \<Rightarrow> bool" where
  "isBuiltinIdentifier (Identifier name t r s) = (t \<noteq> UserDefined)"
| "isBuiltinIdentifier (UserDefinedTypeName name r s) = False"
| "isBuiltinIdentifier (MemberAccess b m r s l) = False"

fun isMemberAccess :: "RefNode \<Rightarrow> bool" where
  "isMemberAccess (MemberAccess b m r s l) = True"
| "isMemberAccess (Identifier name t r s) = False"
| "isMemberAccess (UserDefinedTypeName name r s) = False"

definition isMaterial :: "DeclKind \<Rightarrow> bool" where
  "isMaterial k \<longleftrightarrow>
     k = ContractDecl \<or> k = StructDecl \<or> k = EnumDecl \<or> k = FunctionDecl \<or> k = VariableDecl"

fun isUnitOrContract :: "DeclScope \<Rightarrow> bool" where
  "isUnitOrContract (ScopeUnit u) = True"
| "isUnitOrContract (ScopeContr c) = True"
| "isUnitOrContract ScopeElse = False"

fun baseIsUnitOrImport :: "Store \<Rightarrow> BaseExpression \<Rightarrow> bool" where
  "baseIsUnitOrImport store (BaseIdentifier (Some b)) =
     (decl_kind (store b) = SourceUnitDecl \<or> decl_kind (store b) = ImportDirectiveDecl)"
| "baseIsUnitOrImport store (BaseIdentifier None) = False"
| "baseIsUnitOrImport store BaseOtherExpression = False"

fun renameRef :: "Store \<Rightarrow> nat \<Rightarrow> nat \<Rightarrow> string \<Rightarrow> RefNode \<Rightarrow> error + RefNode" where
  "renameRef store factoryContext d fqDefName (MemberAccess baseExp m r s link) =
     (if \<not> baseIsUnitOrImport store baseExp then Inr (MemberAccess baseExp m r s link)
      else replaceNode link factoryContext (MemberAccess baseExp m r s link)
             (Identifier (decl_name (store d)) UserDefined (Some d) s))"
| "renameRef store factoryContext d fqDefName (Identifier name t r s) =
     (if fqDefName \<noteq> name then Inr (Identifier fqDefName t r s) else Inr (Identifier name t r s))"
| "renameRef store factoryContext d fqDefName (UserDefinedTypeName name r s) =
     (if fqDefName \<noteq> name then Inr (UserDefinedTypeName fqDefName r s)
      else Inr (UserDefinedTypeName name r s))"

definition fixRenamingError :: "Store \<Rightarrow> nat \<Rightarrow> RefNode \<Rightarrow> error + RefNode" where
  "fixRenamingError store factoryContext refNode =
     (if isBuiltinIdentifier refNode then Inr refNode
      else (case vReferencedDeclaration refNode of
              None \<Rightarrow> Inr refNode
            | Some d \<Rightarrow>
                (let def = store d
                 in if \<not> isMaterial (decl_kind def) then Inr refNode
                    else if decl_kind def = VariableDecl
                            \<and> \<not> (isUnitOrContract (decl_vScope def) \<and> isMemberAccess refNode)
                    then Inr refNode
                    else bindE (getFQName store d (typeScope refNode))
                           (\<lambda>fqDefName. renameRef store factoryContext d fqDefName refNode))))"

definition fixRenamingErrors ::
  "FlatUnit list \<Rightarrow> nat \<Rightarrow> Store \<Rightarrow> error + RefNode list list" where
  "fixRenamingErrors units factoryContext store =
     mapE (\<lambda>unit. mapE (fixRenamingError store factoryContext) (fu_refNodes unit)) units"

subsection \<open>What is renamed and what is rewritten\<close>

text \<open>
  The property of a reference node and the node that stands at its place after the pass: an
  identifier or a type name that refers to a contract, a struct, an enum or a function
  carries the fully-qualified name of that definition, and a member access that has a
  parent, whose base is an identifier for a source unit or an import, and which refers to
  one of these definitions or to a constant or state variable, has become a plain identifier
  for the definition. Nothing is said about the other reference nodes.
\<close>

definition renamable :: "DeclKind \<Rightarrow> bool" where
  "renamable k \<longleftrightarrow> k = ContractDecl \<or> k = StructDecl \<or> k = EnumDecl \<or> k = FunctionDecl"

fun fixedRef :: "Store \<Rightarrow> RefNode \<Rightarrow> RefNode \<Rightarrow> bool" where
  "fixedRef store (Identifier name t r s) new =
     (case r of
        None \<Rightarrow> True
      | Some d \<Rightarrow>
          t = UserDefined \<and> renamable (decl_kind (store d)) \<longrightarrow>
            (\<exists>fq. getFQName store d s = Inr fq \<and> new = Identifier fq t r s))"
| "fixedRef store (UserDefinedTypeName name r s) new =
     (case r of
        None \<Rightarrow> True
      | Some d \<Rightarrow>
          renamable (decl_kind (store d)) \<longrightarrow>
            (\<exists>fq. getFQName store d s = Inr fq \<and> new = UserDefinedTypeName fq r s))"
| "fixedRef store (MemberAccess baseExp m r s link) new =
     (case r of
        None \<Rightarrow> True
      | Some d \<Rightarrow>
          link_parent link \<noteq> NoParent
          \<and> baseIsUnitOrImport store baseExp
          \<and> (renamable (decl_kind (store d))
              \<or> decl_kind (store d) = VariableDecl \<and> isUnitOrContract (decl_vScope (store d))) \<longrightarrow>
            new = Identifier (decl_name (store d)) UserDefined (Some d) s)"

lemma replaceNode_Inr:
  assumes "replaceNode link newContext oldNode newNode = Inr new"
    and "link_parent link \<noteq> NoParent"
  shows "new = newNode"
  using assms by (cases "link_parent link") (auto simp: replaceNode_def split: if_splits)

lemma fixRenamingError_fixedRef:
  assumes "fixRenamingError store factoryContext old = Inr new"
  shows "fixedRef store old new"
proof (cases "vReferencedDeclaration old")
  case None
  then show ?thesis by (cases old) simp_all
next
  case (Some d)
  show ?thesis
  proof (cases old)
    case (Identifier name t r s)
    with Some have r: "r = Some d" by simp
    show ?thesis
    proof (cases "t = UserDefined \<and> renamable (decl_kind (store d))")
      case True
      then have m: "isMaterial (decl_kind (store d))" and v: "decl_kind (store d) \<noteq> VariableDecl"
        by (auto simp: renamable_def isMaterial_def)
      from assms Identifier r True m v obtain fq where
        "getFQName store d s = Inr fq" and "renameRef store factoryContext d fq old = Inr new"
        by (auto simp: fixRenamingError_def Let_def bindE_Inr)
      with Identifier r show ?thesis by (auto split: if_splits)
    next
      case False
      with Identifier r show ?thesis by auto
    qed
  next
    case (UserDefinedTypeName name r s)
    with Some have r: "r = Some d" by simp
    show ?thesis
    proof (cases "renamable (decl_kind (store d))")
      case True
      then have m: "isMaterial (decl_kind (store d))" and v: "decl_kind (store d) \<noteq> VariableDecl"
        by (auto simp: renamable_def isMaterial_def)
      from assms UserDefinedTypeName r m v obtain fq where
        "getFQName store d s = Inr fq" and "renameRef store factoryContext d fq old = Inr new"
        by (auto simp: fixRenamingError_def Let_def bindE_Inr)
      with UserDefinedTypeName r show ?thesis by (auto split: if_splits)
    next
      case False
      with UserDefinedTypeName r show ?thesis by auto
    qed
  next
    case (MemberAccess baseExp m r s link)
    with Some have r: "r = Some d" by simp
    show ?thesis
    proof (cases "link_parent link \<noteq> NoParent \<and> baseIsUnitOrImport store baseExp
          \<and> (renamable (decl_kind (store d))
              \<or> decl_kind (store d) = VariableDecl \<and> isUnitOrContract (decl_vScope (store d)))")
      case True
      then have mat: "isMaterial (decl_kind (store d))"
        and v: "\<not> (decl_kind (store d) = VariableDecl
                  \<and> \<not> (isUnitOrContract (decl_vScope (store d)) \<and> isMemberAccess old))"
        using MemberAccess by (auto simp: renamable_def isMaterial_def)
      from assms MemberAccess r mat v obtain fq where
        "getFQName store d s = Inr fq" and "renameRef store factoryContext d fq old = Inr new"
        by (auto simp: fixRenamingError_def Let_def bindE_Inr)
      with MemberAccess True have
        "replaceNode link factoryContext old
           (Identifier (decl_name (store d)) UserDefined (Some d) s) = Inr new"
        by simp
      from replaceNode_Inr [OF this] True
      have "new = Identifier (decl_name (store d)) UserDefined (Some d) s" by simp
      with MemberAccess r show ?thesis by simp
    next
      case False
      with MemberAccess r show ?thesis by auto
    qed
  qed
qed

lemma mapE_list_all2:
  "mapE f xs = Inr ys \<Longrightarrow> list_all2 (\<lambda>x y. f x = Inr y) xs ys"
proof (induction xs arbitrary: ys)
  case Nil
  then show ?case by simp
next
  case (Cons x xs)
  then show ?case by (auto split: sum.splits)
qed

lemma fixRenamingErrors_fixedRef:
  assumes "fixRenamingErrors units factoryContext store = Inr nodes"
  shows "list_all2 (\<lambda>unit new. list_all2 (fixedRef store) (fu_refNodes unit) new) units nodes"
proof -
  from assms
  have "list_all2 (\<lambda>unit new.
           mapE (fixRenamingError store factoryContext) (fu_refNodes unit) = Inr new)
         units nodes"
    unfolding fixRenamingErrors_def by (rule mapE_list_all2)
  then show ?thesis
  proof (rule list_all2_mono)
    fix unit new
    assume "mapE (fixRenamingError store factoryContext) (fu_refNodes unit) = Inr new"
    then have "list_all2 (\<lambda>x y. fixRenamingError store factoryContext x = Inr y)
                 (fu_refNodes unit) new"
      by (rule mapE_list_all2)
    then show "list_all2 (fixedRef store) (fu_refNodes unit) new"
      by (rule list_all2_mono) (rule fixRenamingError_fixedRef)
  qed
qed

text \<open>
  The name of the \<open>i\<close>-th top-level definition after the renaming: its own name if no
  earlier definition has that name, and otherwise its name followed by \<open>_k\<close>, where \<open>k\<close>
  is the number of earlier definitions with that name.
\<close>

definition newName :: "Store \<Rightarrow> nat list \<Rightarrow> nat \<Rightarrow> string" where
  "newName store defs i =
     (let name = decl_name (store (defs ! i));
          k = length (filter (\<lambda>e. decl_name (store e) = name) (take i defs))
      in if k = 0 then name else name @ ''_'' @ showNat k)"

text \<open>
  What holds of the two passes on units whose top-level definitions are distinct nodes: the
  first definition of every name keeps the name and the \<open>k\<close>-th further one is called
  \<open>name_k\<close>; and when \<open>fixRenamingErrors\<close> returns, the reference nodes are as \<open>fixedRef\<close>
  describes them, with the names that \<open>fixNameConflicts\<close> has given.
\<close>

lemma flatten_renames_and_rewrites:
  assumes "distinct (allDefs units)"
  shows "\<forall>i < length (allDefs units).
           decl_name (fixNameConflicts units store (allDefs units ! i))
             = newName store (allDefs units) i"
    and "fixRenamingErrors units factoryContext (fixNameConflicts units store) = Inr nodes \<Longrightarrow>
           list_all2 (\<lambda>unit new.
               list_all2 (fixedRef (fixNameConflicts units store)) (fu_refNodes unit) new)
             units nodes"
proof -
  show "\<forall>i < length (allDefs units).
           decl_name (fixNameConflicts units store (allDefs units ! i))
             = newName store (allDefs units) i"
  proof (intro allI impI)
    fix i
    assume i: "i < length (allDefs units)"
    from fixNameConflicts_names [OF assms i, of store]
    show "decl_name (fixNameConflicts units store (allDefs units ! i))
            = newName store (allDefs units) i"
      by (simp add: newName_def Let_def)
  qed
next
  assume "fixRenamingErrors units factoryContext (fixNameConflicts units store) = Inr nodes"
  then show "list_all2 (\<lambda>unit new.
               list_all2 (fixedRef (fixNameConflicts units store)) (fu_refNodes unit) new)
             units nodes"
    by (rule fixRenamingErrors_fixedRef)
qed

subsection \<open>Two units that both declare \<open>C\<close>\<close>

text \<open>
  Unit 100 declares a contract \<open>C\<close> (node 1). Unit 101 imports it as \<open>A\<close> (import directive
  50) and declares a contract \<open>C\<close> of its own (node 2) with a struct \<open>S\<close> (node 3). The
  second unit mentions its own \<open>C\<close>, its struct as \<open>C.S\<close> from outside the contract, and the
  imported contract as \<open>A.C\<close> in the initial value of a variable declaration statement
  (node 20).
\<close>

definition exStore :: Store where
  "exStore = (\<lambda>d. \<lparr>decl_kind = OtherDecl, decl_name = [], decl_vScope = ScopeElse\<rparr>)
     (1 := \<lparr>decl_kind = ContractDecl, decl_name = ''C'', decl_vScope = ScopeUnit 100\<rparr>,
      2 := \<lparr>decl_kind = ContractDecl, decl_name = ''C'', decl_vScope = ScopeUnit 101\<rparr>,
      3 := \<lparr>decl_kind = StructDecl, decl_name = ''S'', decl_vScope = ScopeContr 2\<rparr>,
      50 := \<lparr>decl_kind = ImportDirectiveDecl, decl_name = [], decl_vScope = ScopeUnit 101\<rparr>,
      100 := \<lparr>decl_kind = SourceUnitDecl, decl_name = [], decl_vScope = ScopeElse\<rparr>,
      101 := \<lparr>decl_kind = SourceUnitDecl, decl_name = [], decl_vScope = ScopeElse\<rparr>)"

definition exFlatUnits :: "FlatUnit list" where
  "exFlatUnits =
     [\<lparr>fu_vContracts = [1], fu_vStructs = [], fu_vEnums = [], fu_refNodes = []\<rparr>,
      \<lparr>fu_vContracts = [2], fu_vStructs = [], fu_vEnums = [],
       fu_refNodes =
         [Identifier ''C'' UserDefined (Some 2) (ScopeContr 2),
          UserDefinedTypeName ''C.S'' (Some 3) (ScopeUnit 101),
          MemberAccess (BaseIdentifier (Some 50)) ''C'' (Some 1) (ScopeContr 2)
            \<lparr>link_id = 21, link_context = 0, link_parent = OwnProperty\<rparr>]\<rparr>]"

lemma exFlatUnits_flattened:
  "distinct (allDefs exFlatUnits)"
  "map (\<lambda>d. decl_name (fixNameConflicts exFlatUnits exStore d)) (allDefs exFlatUnits)
     = [''C'', ''C_1'']"
  "fixRenamingErrors exFlatUnits 0 (fixNameConflicts exFlatUnits exStore) =
     Inr [[],
          [Identifier ''C_1'' UserDefined (Some 2) (ScopeContr 2),
           UserDefinedTypeName ''C_1.S'' (Some 3) (ScopeUnit 101),
           Identifier ''C'' UserDefined (Some 1) (ScopeContr 2)]]"
  by code_simp+

subsection \<open>A constant under an import alias\<close>

text \<open>
  Unit 100 declares the file-level constant \<open>K\<close> (node 7). Unit 101 has
  \<open>import {K as D} from "./a.sol"\<close> and \<open>import "./a.sol" as A\<close> (import directive 50), and
  declares the contract \<open>User\<close> (node 2), which mentions the constant once under its alias
  \<open>D\<close> and once as \<open>A.K\<close>, both in the initial value of a state variable.
\<close>

definition exAliasStore :: Store where
  "exAliasStore = (\<lambda>d. \<lparr>decl_kind = OtherDecl, decl_name = [], decl_vScope = ScopeElse\<rparr>)
     (2 := \<lparr>decl_kind = ContractDecl, decl_name = ''User'', decl_vScope = ScopeUnit 101\<rparr>,
      7 := \<lparr>decl_kind = VariableDecl, decl_name = ''K'', decl_vScope = ScopeUnit 100\<rparr>,
      50 := \<lparr>decl_kind = ImportDirectiveDecl, decl_name = [], decl_vScope = ScopeUnit 101\<rparr>,
      100 := \<lparr>decl_kind = SourceUnitDecl, decl_name = [], decl_vScope = ScopeElse\<rparr>,
      101 := \<lparr>decl_kind = SourceUnitDecl, decl_name = [], decl_vScope = ScopeElse\<rparr>)"

definition exAliasUnits :: "FlatUnit list" where
  "exAliasUnits =
     [\<lparr>fu_vContracts = [], fu_vStructs = [], fu_vEnums = [], fu_refNodes = []\<rparr>,
      \<lparr>fu_vContracts = [2], fu_vStructs = [], fu_vEnums = [],
       fu_refNodes =
         [Identifier ''D'' UserDefined (Some 7) (ScopeContr 2),
          MemberAccess (BaseIdentifier (Some 50)) ''K'' (Some 7) (ScopeContr 2)
            \<lparr>link_id = 31, link_context = 0, link_parent = OwnProperty\<rparr>]\<rparr>]"

text \<open>
  C2. The claim is that \<open>fixRenamingErrors\<close> rewrites every identifier whose referent was
  aliased via import to the fully-qualified name of the referent. The guard on variable
  declarations skips every reference to a variable that is not a member access. So the
  identifier for the constant keeps the alias \<open>D\<close>, although the fully-qualified name of its
  referent is \<open>K\<close>, while the member access \<open>A.K\<close> to the same constant is replaced by the
  identifier \<open>K\<close>.
\<close>

theorem aliased_constant_not_rewritten:
  "getFQName (fixNameConflicts exAliasUnits exAliasStore) 7 (ScopeContr 2) = Inr ''K''
   \<and> fixRenamingErrors exAliasUnits 0 (fixNameConflicts exAliasUnits exAliasStore) =
       Inr [[], [Identifier ''D'' UserDefined (Some 7) (ScopeContr 2),
                 Identifier ''K'' UserDefined (Some 7) (ScopeContr 2)]]"
  by code_simp

text \<open>
  A member access that its parent holds in an array, such as the argument \<open>A.K\<close> of a call
  \<open>g(A.K)\<close> (node 40): \<open>replaceNode\<close> finds it neither among the own properties of the
  parent nor behind a getter and setter pair, and the pass ends in the final assertion.
\<close>

lemma member_access_argument_fails:
  "fixRenamingErrors
     [\<lparr>fu_vContracts = [2], fu_vStructs = [], fu_vEnums = [],
       fu_refNodes =
         [MemberAccess (BaseIdentifier (Some 50)) ''K'' (Some 7) (ScopeContr 2)
            \<lparr>link_id = 41, link_context = 0,
             link_parent = NotAProperty ''FunctionCall'' 40\<rparr>]\<rparr>]
     0 exAliasStore =
   Inl (AssertionFailed ''Couldn't find child MemberAccess#41 under parent FunctionCall#40'')"
  by code_simp

end
